theory Spec2Isabelle
  imports Main "HOL-Library.Sublist" "HOL-Library.Char_ord" "HOL-Library.List_Lexorder"
begin

section \<open>The file system the program works on\<close>

text \<open>
  The program (main.py) reorganises a directory tree through the Python standard
  library: \<^verbatim>\<open>os.listdir\<close>, \<^verbatim>\<open>os.walk\<close>, \<^verbatim>\<open>os.path.isdir\<close>, \<^verbatim>\<open>os.path.exists\<close>,
  \<^verbatim>\<open>os.path.join\<close>, \<^verbatim>\<open>os.path.basename\<close> and \<^verbatim>\<open>shutil.move\<close>. These are modelled on
  a tree of regular files and directories, without symbolic links.

  A path is the list of its components from the root of the tree, so
  \<^verbatim>\<open>os.path.join(p, n)\<close> appends a component and \<^verbatim>\<open>os.path.basename\<close> is the last
  component. A directory keeps its entries in the order in which the operating system
  lists them.
\<close>

type_synonym name = string
type_synonym path = "name list"
type_synonym content = string

datatype node = File content | Dir "(name \<times> node) list"

fun is_Dir :: "node \<Rightarrow> bool" where
  "is_Dir (Dir es) = True"
| "is_Dir (File c) = False"

fun node_at :: "node \<Rightarrow> path \<Rightarrow> node option" where
  "node_at t [] = Some t"
| "node_at (File c) (n # p) = None"
| "node_at (Dir es) (n # p) = (case map_of es n of None \<Rightarrow> None | Some t \<Rightarrow> node_at t p)"

text \<open>Entry names are unique inside every directory of a real file system.\<close>

fun wf_node :: "node \<Rightarrow> bool" where
  "wf_node (File c) = True"
| "wf_node (Dir es) = (distinct (map fst es) \<and> list_all (\<lambda>e. wf_node (snd e)) es)"

definition os_path_join :: "path \<Rightarrow> name \<Rightarrow> path" where
  "os_path_join p n = p @ [n]"

definition os_path_basename :: "path \<Rightarrow> name" where
  "os_path_basename p = (if p = [] then [] else last p)"

definition os_path_exists :: "node \<Rightarrow> path \<Rightarrow> bool" where
  "os_path_exists t p = (node_at t p \<noteq> None)"

definition os_path_isdir :: "node \<Rightarrow> path \<Rightarrow> bool" where
  "os_path_isdir t p = (case node_at t p of Some x \<Rightarrow> is_Dir x | None \<Rightarrow> False)"

text \<open>\<^verbatim>\<open>str.endswith\<close>: the suffix test, character by character.\<close>

definition endswith :: "string \<Rightarrow> string \<Rightarrow> bool" where
  "endswith s suf = (length suf \<le> length s \<and> drop (length s - length suf) s = suf)"

text \<open>Unlinking the entry at a path, and linking a node at a path (replacing an entry
  of the same name, as \<^verbatim>\<open>rename(2)\<close> does).\<close>

fun remove_node :: "path \<Rightarrow> node \<Rightarrow> node" where
  "remove_node [] t = t"
| "remove_node (n # p) (File c) = File c"
| "remove_node [n] (Dir es) = Dir (filter (\<lambda>e. fst e \<noteq> n) es)"
| "remove_node (n # p) (Dir es) =
     Dir (map (\<lambda>e. if fst e = n then (n, remove_node p (snd e)) else e) es)"

fun insert_node :: "path \<Rightarrow> node \<Rightarrow> node \<Rightarrow> node" where
  "insert_node [] x t = t"
| "insert_node (n # p) x (File c) = File c"
| "insert_node [n] x (Dir es) = Dir (filter (\<lambda>e. fst e \<noteq> n) es @ [(n, x)])"
| "insert_node (n # p) x (Dir es) =
     Dir (map (\<lambda>e. if fst e = n then (n, insert_node p x (snd e)) else e) es)"

text \<open>\<^verbatim>\<open>os.walk(top)\<close>, top-down: one triple (directory, names of its subdirectories,
  names of its other entries) for the directory itself, then the triples of each
  subdirectory in listing order.\<close>

fun os_walk_tree :: "path \<Rightarrow> node \<Rightarrow> (path \<times> name list \<times> name list) list" where
  "os_walk_tree dirpath (File c) = []"
| "os_walk_tree dirpath (Dir es) =
     (dirpath, map fst (filter (\<lambda>e. is_Dir (snd e)) es), map fst (filter (\<lambda>e. \<not> is_Dir (snd e)) es))
       # concat (map (\<lambda>e. os_walk_tree (dirpath @ [fst e]) (snd e)) es)"

section \<open>The world: tree, injected failures, calls made, log\<close>

text \<open>
  The environment can make a call fail that the tree alone would let succeed (permission
  denied, an I/O error, another process changing the tree). The world carries a script
  of such failures. Each call to the operating system that can raise takes the next
  entry of the script, and fails with its error when there is one: \<^verbatim>\<open>os.listdir\<close>, and
  inside \<^verbatim>\<open>shutil.move\<close> the rename, the copy of a file, the unlink, and for a
  directory each scan, \<^verbatim>\<open>makedirs\<close> and \<^verbatim>\<open>rmdir\<close>. A copy of a file that fails may
  have created its destination already: a second script says how far each failing copy
  got (not as far as creating the destination, or that many characters written).
  \<^verbatim>\<open>os.walk\<close> swallows the errors of its scans and \<^verbatim>\<open>os.path.exists\<close> and
  \<^verbatim>\<open>os.path.isdir\<close> answer False instead of raising, so they take nothing from the
  scripts: the tree is what they can see.

  The world also records the enumerations and moves the program has asked for, and
  what it has sent to its logger. Every call of the program passes the logger, and the
  model covers these calls. \<^verbatim>\<open>time.sleep\<close>, the progress bar, the argument parser, the
  log file, and the modes, owners and times of files are not modelled.
\<close>

datatype os_error =
  FileNotFoundError | NotADirectoryError | IsADirectoryError | FileExistsError
  | SameFileError | InvalidArgumentError | PermissionError | InputOutputError | ShutilError

datatype call = Listdir path | Walk path | Move path path

datatype level = INFO | WARNING | ERROR

datatype message =
    Moving_from path string
  | Found_patient_directories nat
  | Error_listing os_error
  | Already_exists path
  | Error_moving path os_error
  | No_files_found name
  | Found_before name nat
  | Found_after name nat
  | Were_moved name nat
  | Execution_time
  | Total_moved nat

record world =
  tree :: node
  faults :: "os_error option list"
  progress :: "nat option list"
  calls :: "call list"
  logged :: "(level \<times> message) list"

definition logger_info :: "message \<Rightarrow> world \<Rightarrow> world" where
  "logger_info m w = w\<lparr>logged := logged w @ [(INFO, m)]\<rparr>"

definition logger_warning :: "message \<Rightarrow> world \<Rightarrow> world" where
  "logger_warning m w = w\<lparr>logged := logged w @ [(WARNING, m)]\<rparr>"

definition logger_error :: "message \<Rightarrow> world \<Rightarrow> world" where
  "logger_error m w = w\<lparr>logged := logged w @ [(ERROR, m)]\<rparr>"

definition next_fault :: "world \<Rightarrow> os_error option \<times> world" where
  "next_fault w = (case faults w of [] \<Rightarrow> (None, w) | f # fs \<Rightarrow> (f, w\<lparr>faults := fs\<rparr>))"

definition os_listdir :: "path \<Rightarrow> world \<Rightarrow> (os_error + name list) \<times> world" where
  "os_listdir p w =
     (let (f, w1) = next_fault (w\<lparr>calls := calls w @ [Listdir p]\<rparr>) in
      case f of
        Some e \<Rightarrow> (Inl e, w1)
      | None \<Rightarrow>
          (case node_at (tree w1) p of
             None \<Rightarrow> (Inl FileNotFoundError, w1)
           | Some (File c) \<Rightarrow> (Inl NotADirectoryError, w1)
           | Some (Dir es) \<Rightarrow> (Inr (map fst es), w1)))"

definition os_walk :: "path \<Rightarrow> world \<Rightarrow> (path \<times> name list \<times> name list) list \<times> world" where
  "os_walk dirpath w =
     ((case node_at (tree w) dirpath of None \<Rightarrow> [] | Some x \<Rightarrow> os_walk_tree dirpath x),
      w\<lparr>calls := calls w @ [Walk dirpath]\<rparr>)"

text \<open>\<^verbatim>\<open>os.rename\<close>, as \<^verbatim>\<open>rename(2)\<close> within one device: what it does to the tree. A
  rename across devices is one of the renames that the environment makes fail.
  \<^verbatim>\<open>shutil.move\<close> never asks for a rename onto an existing directory other than the
  source itself; such a rename is an error here.\<close>

definition os_rename :: "path \<Rightarrow> path \<Rightarrow> node \<Rightarrow> os_error + node" where
  "os_rename src dst t =
     (case node_at t src of
        None \<Rightarrow> Inl FileNotFoundError
      | Some x \<Rightarrow>
          if src = dst then Inr t
          else if dst = [] then Inl IsADirectoryError
          else if prefix src dst then Inl (if is_Dir x then InvalidArgumentError else NotADirectoryError)
          else if \<not> os_path_isdir t (butlast dst)
            then Inl (if os_path_exists t (butlast dst) then NotADirectoryError
                      else FileNotFoundError)
          else (case node_at t dst of
                  None \<Rightarrow> Inr (insert_node dst x (remove_node src t))
                | Some (File c) \<Rightarrow>
                    if is_Dir x then Inl NotADirectoryError
                    else Inr (insert_node dst x (remove_node src t))
                | Some (Dir es) \<Rightarrow> Inl IsADirectoryError))"

text \<open>
  The calls \<^verbatim>\<open>shutil.move\<close> makes work on the tree and on the two scripts of the
  environment (the failures, and how far a failing copy got); each gives its result,
  the tree it leaves and the rest of the scripts.
\<close>

type_synonym script = "os_error option list \<times> nat option list"

definition script_fault :: "script \<Rightarrow> os_error option \<times> script" where
  "script_fault s = (case fst s of [] \<Rightarrow> (None, s) | f # fs \<Rightarrow> (f, (fs, snd s)))"

definition script_progress :: "script \<Rightarrow> nat option \<times> script" where
  "script_progress s = (case snd s of [] \<Rightarrow> (None, s) | k # ks \<Rightarrow> (k, (fst s, ks)))"

definition os_rename_call ::
  "path \<Rightarrow> path \<Rightarrow> node \<Rightarrow> script \<Rightarrow> (os_error + unit) \<times> node \<times> script" where
  "os_rename_call src dst t s =
     (case script_fault s of
        (Some e, s1) \<Rightarrow> (Inl e, t, s1)
      | (None, s1) \<Rightarrow>
          (case os_rename src dst t of
             Inl e \<Rightarrow> (Inl e, t, s1)
           | Inr t' \<Rightarrow> (Inr (), t', s1)))"

text \<open>\<^verbatim>\<open>shutil.copy2\<close> of a regular file: it opens the source, creates (or truncates)
  the destination, writes the content and copies the metadata. When the source cannot
  be opened or the destination cannot be created, the copy fails with that error of the
  tree. Otherwise a copy that fails by the script leaves nothing, or the destination
  with the characters written so far.\<close>

definition shutil_copy2 ::
  "path \<Rightarrow> path \<Rightarrow> node \<Rightarrow> script \<Rightarrow> (os_error + unit) \<times> node \<times> script" where
  "shutil_copy2 src dst0 t s =
     (let dst = (if os_path_isdir t dst0 then os_path_join dst0 (os_path_basename src) else dst0)
      in case script_fault s of
        (f, s1) \<Rightarrow>
          (case node_at t src of
             None \<Rightarrow> (Inl FileNotFoundError, t, s1)
           | Some (Dir es) \<Rightarrow> (Inl IsADirectoryError, t, s1)
           | Some (File c) \<Rightarrow>
               if src = dst then (Inl SameFileError, t, s1)
               else if dst = [] \<or> os_path_isdir t dst then (Inl IsADirectoryError, t, s1)
               else if \<not> os_path_isdir t (butlast dst)
                 then (Inl (if os_path_exists t (butlast dst) then NotADirectoryError
                            else FileNotFoundError), t, s1)
               else
                 (case f of
                    None \<Rightarrow> (Inr (), insert_node dst (File c) t, s1)
                  | Some e \<Rightarrow>
                      (case script_progress s1 of
                         (None, s2) \<Rightarrow> (Inl e, t, s2)
                       | (Some k, s2) \<Rightarrow> (Inl e, insert_node dst (File (take k c)) t, s2)))))"

definition os_unlink :: "path \<Rightarrow> node \<Rightarrow> script \<Rightarrow> (os_error + unit) \<times> node \<times> script" where
  "os_unlink p t s =
     (case script_fault s of
        (Some e, s1) \<Rightarrow> (Inl e, t, s1)
      | (None, s1) \<Rightarrow>
          (case node_at t p of
             None \<Rightarrow> (Inl FileNotFoundError, t, s1)
           | Some (Dir es) \<Rightarrow> (Inl IsADirectoryError, t, s1)
           | Some (File c) \<Rightarrow> (Inr (), remove_node p t, s1)))"

text \<open>
  Copying and removing a directory, as \<^verbatim>\<open>shutil.copytree\<close> and \<^verbatim>\<open>shutil.rmtree\<close> do.
  Both work through the two scripts.

  \<^verbatim>\<open>copytree\<close> scans the source directory, makes the destination directory, and copies
  the entries one by one; a failed entry is recorded and the others are still copied,
  and an error is raised at the end when one was recorded. The result is what then
  exists at the destination (nothing, when the scan or \<^verbatim>\<open>makedirs\<close> failed), the error
  raised, and the rest of the scripts.

  \<^verbatim>\<open>rmtree\<close> scans the directory, removes its entries one by one and then the directory
  itself; it stops at the first error. The result is what is left of the source, the
  error raised, and the rest of the scripts.
\<close>

fun copytree_node :: "node \<Rightarrow> script \<Rightarrow> node option \<times> os_error option \<times> script"
  and copytree_entries ::
    "(name \<times> node) list \<Rightarrow> script \<Rightarrow> (name \<times> node) list \<times> os_error option \<times> script" where
  "copytree_node (File c) s =
     (case script_fault s of
        (None, s1) \<Rightarrow> (Some (File c), None, s1)
      | (Some e, s1) \<Rightarrow>
          (case script_progress s1 of
             (None, s2) \<Rightarrow> (None, Some e, s2)
           | (Some k, s2) \<Rightarrow> (Some (File (take k c)), Some e, s2)))"
| "copytree_node (Dir es) s =
     (case script_fault s of
        (Some e, s1) \<Rightarrow> (None, Some e, s1)
      | (None, s1) \<Rightarrow>
          (case script_fault s1 of
             (Some e, s2) \<Rightarrow> (None, Some e, s2)
           | (None, s2) \<Rightarrow>
               (case copytree_entries es s2 of
                  (es', err, s3) \<Rightarrow> (Some (Dir es'), err, s3))))"
| "copytree_entries [] s = ([], None, s)"
| "copytree_entries ((n, x) # es) s =
     (case copytree_node x s of
        (r, err, s1) \<Rightarrow>
          (case copytree_entries es s1 of
             (es', err', s2) \<Rightarrow>
               ((case r of None \<Rightarrow> es' | Some y \<Rightarrow> (n, y) # es'),
                (if err = None \<and> err' = None then None else Some ShutilError),
                s2)))"

fun rmtree_node :: "node \<Rightarrow> script \<Rightarrow> node option \<times> os_error option \<times> script"
  and rmtree_entries ::
    "(name \<times> node) list \<Rightarrow> script \<Rightarrow> (name \<times> node) list \<times> os_error option \<times> script" where
  "rmtree_node (File c) s =
     (case script_fault s of
        (None, s1) \<Rightarrow> (None, None, s1)
      | (Some e, s1) \<Rightarrow> (Some (File c), Some e, s1))"
| "rmtree_node (Dir es) s =
     (case script_fault s of
        (Some e, s1) \<Rightarrow> (Some (Dir es), Some e, s1)
      | (None, s1) \<Rightarrow>
          (case rmtree_entries es s1 of
             (es', Some e, s2) \<Rightarrow> (Some (Dir es'), Some e, s2)
           | (es', None, s2) \<Rightarrow>
               (case script_fault s2 of
                  (None, s3) \<Rightarrow> (None, None, s3)
                | (Some e, s3) \<Rightarrow> (Some (Dir es'), Some e, s3))))"
| "rmtree_entries [] s = ([], None, s)"
| "rmtree_entries ((n, x) # es) s =
     (case rmtree_node x s of
        (Some y, err, s1) \<Rightarrow> ((n, y) # es, err, s1)
      | (None, err, s1) \<Rightarrow> rmtree_entries es s1)"

text \<open>\<^verbatim>\<open>os.makedirs(p)\<close> makes the directory and its missing parents: the error the
  tree gives it, and linking a node at a path with the missing directories on the way.\<close>

fun makedirs_error :: "node \<Rightarrow> path \<Rightarrow> os_error option" where
  "makedirs_error t [] = Some FileExistsError"
| "makedirs_error (File c) (n # p) = Some NotADirectoryError"
| "makedirs_error (Dir es) (n # p) =
     (case map_of es n of None \<Rightarrow> None | Some x \<Rightarrow> makedirs_error x p)"

fun graft :: "path \<Rightarrow> node \<Rightarrow> node \<Rightarrow> node" where
  "graft [] x t = t"
| "graft (n # p) x (File c) = File c"
| "graft (n # p) x (Dir es) =
     (if n \<in> fst ` set es
      then Dir (map (\<lambda>e. if fst e = n then (n, graft p x (snd e)) else e) es)
      else Dir (es @ [(n, foldr (\<lambda>m y. Dir [(m, y)]) p x)]))"

text \<open>The fallback of \<^verbatim>\<open>shutil.move\<close> for a directory with the entries \<^verbatim>\<open>es\<close>:
  \<^verbatim>\<open>copytree\<close> (the scan of the source, \<^verbatim>\<open>makedirs\<close> of the destination, the entries),
  then \<^verbatim>\<open>rmtree\<close> of the source.\<close>

definition move_tree ::
  "path \<Rightarrow> path \<Rightarrow> (name \<times> node) list \<Rightarrow> node \<Rightarrow> script \<Rightarrow> (os_error + unit) \<times> node \<times> script"
  where
  "move_tree src dst es t s =
     (case script_fault s of
        (Some e, s1) \<Rightarrow> (Inl e, t, s1)
      | (None, s1) \<Rightarrow>
          (case script_fault s1 of
             (Some e, s2) \<Rightarrow> (Inl e, t, s2)
           | (None, s2) \<Rightarrow>
               (case makedirs_error t dst of
                  Some e \<Rightarrow> (Inl e, t, s2)
                | None \<Rightarrow>
                    (case copytree_entries es s2 of
                       (es', Some e, s3) \<Rightarrow> (Inl e, graft dst (Dir es') t, s3)
                     | (es', None, s3) \<Rightarrow>
                         (case rmtree_node (Dir es) s3 of
                            (None, err, s4) \<Rightarrow>
                              (Inr (), remove_node src (graft dst (Dir es') t), s4)
                          | (Some z, err, s4) \<Rightarrow>
                              (Inl (case err of None \<Rightarrow> ShutilError | Some e \<Rightarrow> e),
                               insert_node src z (graft dst (Dir es') t), s4))))))"

text \<open>
  \<^verbatim>\<open>shutil.move(src, dst)\<close>: into \<^verbatim>\<open>dst\<close> when that is a directory, onto \<^verbatim>\<open>dst\<close>
  otherwise. It tries \<^verbatim>\<open>os.rename\<close>; on any error of the rename it falls back to
  copying the source and then removing it (\<^verbatim>\<open>copy2\<close> and \<^verbatim>\<open>os.unlink\<close> for a file,
  \<^verbatim>\<open>copytree\<close> and \<^verbatim>\<open>rmtree\<close> for a directory, which it refuses to move into
  itself). So a move that raises may have created its destination.
\<close>

definition shutil_move_env ::
  "path \<Rightarrow> path \<Rightarrow> node \<Rightarrow> script \<Rightarrow> (os_error + unit) \<times> node \<times> script" where
  "shutil_move_env src dst t s =
     (if os_path_isdir t dst \<and> src = dst then
        (case script_fault s of
           (Some e, s1) \<Rightarrow> (Inl e, t, s1)
         | (None, s1) \<Rightarrow> (Inr (), t, s1))
      else
        (let real_dst = (if os_path_isdir t dst
                         then os_path_join dst (os_path_basename src) else dst) in
         if os_path_isdir t dst \<and> os_path_exists t real_dst
         then (Inl ShutilError, t, s)
         else
           (case os_rename_call src real_dst t s of
              (Inr u, t1, s1) \<Rightarrow> (Inr (), t1, s1)
            | (Inl e, t1, s1) \<Rightarrow>
                (case node_at t1 src of
                   Some (Dir es) \<Rightarrow>
                     if prefix src dst then (Inl ShutilError, t1, s1)
                     else move_tree src real_dst es t1 s1
                 | _ \<Rightarrow>
                     (case shutil_copy2 src real_dst t1 s1 of
                        (Inl e', t2, s2) \<Rightarrow> (Inl e', t2, s2)
                      | (Inr u, t2, s2) \<Rightarrow> os_unlink src t2 s2)))))"

text \<open>The call of \<^verbatim>\<open>shutil.move\<close> in a world: the call is recorded, the tree and the
  scripts are those the move leaves.\<close>

definition shutil_move :: "path \<Rightarrow> path \<Rightarrow> world \<Rightarrow> (os_error + unit) \<times> world" where
  "shutil_move src dst w =
     (case shutil_move_env src dst (tree w) (faults w, progress w) of
        (r, t, s) \<Rightarrow>
          (r, w\<lparr>tree := t, faults := fst s, progress := snd s,
                calls := calls w @ [Move src dst]\<rparr>))"

section \<open>The program\<close>

text \<open>\<^verbatim>\<open>list_patient_directories\<close> (lines 27-47): the whole body is inside
  \<^verbatim>\<open>try ... except Exception\<close>.\<close>

definition list_patient_directories :: "path \<Rightarrow> bool \<Rightarrow> world \<Rightarrow> name list \<times> world" where
  "list_patient_directories disk_path srt w =
     (case os_listdir disk_path w of
        (Inl e, w1) \<Rightarrow> ([], logger_error (Error_listing e) w1)
      | (Inr names, w1) \<Rightarrow>
          (let patient_dirs = filter (\<lambda>d. os_path_isdir (tree w1) (os_path_join disk_path d)) names;
               w2 = logger_info (Found_patient_directories (length patient_dirs)) w1
           in (if srt then sort patient_dirs else patient_dirs, w2)))"

text \<open>\<^verbatim>\<open>list_dcm_files\<close> (lines 50-60): the two nested loops over the walk append the
  joined path of every matching name.\<close>

definition list_dcm_files :: "path \<Rightarrow> string \<Rightarrow> world \<Rightarrow> path list \<times> world" where
  "list_dcm_files patient_path file_extension w =
     (case os_walk patient_path w of
        (triples, w1) \<Rightarrow>
          (concat (map (\<lambda>(root, dirs, files).
               map (\<lambda>file. os_path_join root file)
                 (filter (\<lambda>file. endswith file file_extension) files)) triples),
           w1))"

text \<open>\<^verbatim>\<open>move_dcm_files\<close> (lines 63-83): the loop over the candidates, with the counter
  and the world as its state. The body of the loop is inside
  \<^verbatim>\<open>try ... except Exception\<close>, whose handler logs and goes on.\<close>

fun move_loop :: "path list \<Rightarrow> path \<Rightarrow> nat \<Rightarrow> world \<Rightarrow> nat \<times> world" where
  "move_loop [] patient_path moved_files_count w = (moved_files_count, w)"
| "move_loop (dcm_file # rest) patient_path moved_files_count w =
     (let destination_path = os_path_join patient_path (os_path_basename dcm_file) in
      if \<not> os_path_exists (tree w) destination_path then
        (case shutil_move dcm_file destination_path w of
           (Inr u, w1) \<Rightarrow> move_loop rest patient_path (moved_files_count + 1) w1
         | (Inl e, w1) \<Rightarrow>
             move_loop rest patient_path moved_files_count
               (logger_error (Error_moving dcm_file e) w1))
      else
        move_loop rest patient_path moved_files_count
          (logger_warning (Already_exists destination_path) w))"

definition move_dcm_files :: "path list \<Rightarrow> path \<Rightarrow> world \<Rightarrow> nat \<times> world" where
  "move_dcm_files patient_dcm_files patient_path w = move_loop patient_dcm_files patient_path 0 w"

text \<open>\<^verbatim>\<open>process_patient_directory\<close> (lines 86-114). Nothing here is inside a
  \<^verbatim>\<open>try\<close>: an error of the \<^verbatim>\<open>os.listdir\<close> of lines 108-110 leaves the function.\<close>

definition process_patient_directory ::
    "path \<Rightarrow> name \<Rightarrow> string \<Rightarrow> world \<Rightarrow> (os_error + nat) \<times> world" where
  "process_patient_directory disk_path patient_dir file_extension w =
     (let patient_path = os_path_join disk_path patient_dir in
      case list_dcm_files patient_path file_extension w of
        (patient_dcm_files, w1) \<Rightarrow>
          if patient_dcm_files = [] then (Inr 0, logger_info (No_files_found patient_dir) w1)
          else
            (let w2 = logger_info (Found_before patient_dir (length patient_dcm_files)) w1 in
             case move_dcm_files patient_dcm_files patient_path w2 of
               (moved_files_count, w3) \<Rightarrow>
                 (case os_listdir patient_path w3 of
                    (Inl e, w4) \<Rightarrow> (Inl e, w4)
                  | (Inr names, w4) \<Rightarrow>
                      (let new_dcm_files_count =
                             length (filter (\<lambda>name. endswith name file_extension) names);
                           w5 = logger_info (Found_after patient_dir new_dcm_files_count) w4;
                           w6 = logger_info (Were_moved patient_dir moved_files_count) w5
                       in (Inr moved_files_count, w6)))))"

text \<open>\<^verbatim>\<open>main\<close> (lines 117-163), from the parsed arguments on: the loop over the
  patients adds up the moved counts; an error leaving
  \<^verbatim>\<open>process_patient_directory\<close> leaves \<^verbatim>\<open>main\<close> as well.\<close>

fun main_loop :: "name list \<Rightarrow> path \<Rightarrow> string \<Rightarrow> nat \<Rightarrow> world \<Rightarrow> (os_error + nat) \<times> world" where
  "main_loop [] disk_path file_extension total_moved_files w = (Inr total_moved_files, w)"
| "main_loop (patient_dir # rest) disk_path file_extension total_moved_files w =
     (case process_patient_directory disk_path patient_dir file_extension w of
        (Inl e, w1) \<Rightarrow> (Inl e, w1)
      | (Inr moved_files_count, w1) \<Rightarrow>
          main_loop rest disk_path file_extension (total_moved_files + moved_files_count) w1)"

definition main :: "path \<Rightarrow> string \<Rightarrow> world \<Rightarrow> (os_error + nat) \<times> world" where
  "main disk_path file_extension w =
     (let w0 = logger_info (Moving_from disk_path file_extension) w in
      case list_patient_directories disk_path True w0 of
        (patients, w1) \<Rightarrow>
          (case main_loop patients disk_path file_extension 0 w1 of
             (Inl e, w2) \<Rightarrow> (Inl e, w2)
           | (Inr total_moved_files, w2) \<Rightarrow>
               (Inr total_moved_files,
                logger_info (Total_moved total_moved_files) (logger_info Execution_time w2))))"

section \<open>What the statements observe\<close>

text \<open>
  What can be observed of a path without reading a directory's entries: nothing, a
  regular file with its content, or a directory.
\<close>

datatype kind = Regular content | Directory

fun kind_of :: "node \<Rightarrow> kind" where
  "kind_of (File c) = Regular c"
| "kind_of (Dir es) = Directory"

definition stat :: "node \<Rightarrow> path \<Rightarrow> kind option" where
  "stat t p = map_option kind_of (node_at t p)"

text \<open>The destination \<^verbatim>\<open>move_dcm_files\<close> computes for a candidate (line 74).\<close>

definition dest :: "path \<Rightarrow> path \<Rightarrow> path" where
  "dest patient_path dcm_file = os_path_join patient_path (os_path_basename dcm_file)"

text \<open>A candidate list none of whose paths is a directory of the tree.\<close>

definition no_dirs :: "node \<Rightarrow> path list \<Rightarrow> bool" where
  "no_dirs t fs = (\<forall>f\<in>set fs. stat t f \<noteq> Some Directory)"

text \<open>The paths the loops of \<^verbatim>\<open>list_dcm_files\<close> collect from the triples of a walk.\<close>

definition matching :: "string \<Rightarrow> (path \<times> name list \<times> name list) list \<Rightarrow> path list" where
  "matching ext triples =
     concat (map (\<lambda>(root, dirs, files).
               map (\<lambda>file. os_path_join root file) (filter (\<lambda>file. endswith file ext) files)) triples)"

text \<open>How often the warning for one destination is in a log.\<close>

definition warned :: "path \<Rightarrow> (level \<times> message) list \<Rightarrow> nat" where
  "warned d l = length (filter (\<lambda>m. m = (WARNING, Already_exists d)) l)"

text \<open>A patient directory is settled when every matching file below it has its
  destination, directly inside the directory, taken.\<close>

definition settled :: "node \<Rightarrow> path \<Rightarrow> string \<Rightarrow> bool" where
  "settled t P ext =
     (\<forall>r c. r \<noteq> [] \<longrightarrow> stat t (P @ r) = Some (Regular c) \<longrightarrow> endswith (last r) ext \<longrightarrow>
            stat t (P @ [last r]) \<noteq> None)"

text \<open>The matching files directly inside a directory: the names of its entries that
  are not directories and end with the extension.\<close>

definition matching_files_in :: "node \<Rightarrow> path \<Rightarrow> string \<Rightarrow> name list" where
  "matching_files_in t p ext =
     (case node_at t p of
        Some (Dir es) \<Rightarrow> map fst (filter (\<lambda>e. \<not> is_Dir (snd e) \<and> endswith (fst e) ext) es)
      | _ \<Rightarrow> [])"

text \<open>Two worlds in which the program meets the same tree and the same environment:
  they may differ in the calls recorded and in the log.\<close>

definition same_env :: "world \<Rightarrow> world \<Rightarrow> bool" where
  "same_env w v \<longleftrightarrow> tree w = tree v \<and> faults w = faults v \<and> progress w = progress v"

section \<open>Example worlds\<close>

definition quiet :: "node \<Rightarrow> world" where
  "quiet t = \<lparr>tree = t, faults = [], progress = [], calls = [], logged = []\<rparr>"

definition suffix_tree :: node where
  "suffix_tree =
     Dir [(''P'', Dir [(''foo.dcm'', File ''1''), (''x.DCM'', File ''2''),
                       (''s'', Dir [(''foo.old.dcm'', File ''3''), (''dcm'', File ''4'')])])]"

definition example_tree :: node where
  "example_tree =
     Dir [(''P1'', Dir [(''sub'', Dir [(''deep'', Dir [(''a.dcm'', File ''A'')])]),
                        (''b.dcm'', File ''B'')]),
          (''readme.txt'', File ''r''),
          (''P2'', Dir [(''notes.txt'', File ''n'')])]"

definition collision_tree :: node where
  "collision_tree =
     Dir [(''P'', Dir [(''s1'', Dir [(''x.dcm'', File ''first'')]),
                       (''s2'', Dir [(''x.dcm'', File ''second'')]),
                       (''s3'', Dir [(''y.dcm'', File ''third'')])])]"

definition unsorted_tree :: node where
  "unsorted_tree =
     Dir [(''P2'', Dir []), (''x.txt'', File ''t''), (''P10'', Dir []), (''P1'', Dir [])]"

definition recount_tree :: node where
  "recount_tree =
     Dir [(''P'', Dir [(''old.dcm'', Dir []), (''sub'', Dir [(''a.dcm'', File ''A'')])])]"

section \<open>Paths in the tree\<close>

lemma node_at_append:
  "node_at t (p @ q) = (case node_at t p of None \<Rightarrow> None | Some x \<Rightarrow> node_at x q)"
  by (induction t p rule: node_at.induct) (auto split: option.splits)

lemma stat_Nil [simp]: "stat t [] = Some (kind_of t)"
  by (simp add: stat_def)

lemma stat_File_Cons [simp]: "stat (File c) (n # p) = None"
  by (simp add: stat_def)

lemma stat_Dir_Cons:
  "stat (Dir es) (n # p) = (case map_of es n of None \<Rightarrow> None | Some x \<Rightarrow> stat x p)"
  by (simp add: stat_def split: option.splits)

lemma stat_append:
  "stat t (p @ q) = (case node_at t p of None \<Rightarrow> None | Some x \<Rightarrow> stat x q)"
  by (simp add: stat_def node_at_append split: option.splits)

lemma stat_append_None: "stat t p = None \<Longrightarrow> stat t (p @ q) = None"
  by (simp add: stat_append) (simp add: stat_def)

lemma stat_append_Regular: "stat t p = Some (Regular c) \<Longrightarrow> q \<noteq> [] \<Longrightarrow> stat t (p @ q) = None"
proof -
  assume a: "stat t p = Some (Regular c)" and q: "q \<noteq> []"
  from a obtain z where z: "node_at t p = Some z" "kind_of z = Regular c"
    by (auto simp: stat_def)
  then have "z = File c" by (cases z) auto
  with z q show ?thesis by (cases q) (auto simp: stat_def node_at_append)
qed

lemma map_of_update_entries:
  "map_of (map (\<lambda>e. if fst e = n then (n, f (snd e)) else e) es) k =
     (if k = n then map_option f (map_of es n) else map_of es k)"
  by (induction es) auto

lemma map_of_filter_other:
  "map_of (filter (\<lambda>e. fst e \<noteq> n) es) k = (if k = n then None else map_of es k)"
  by (induction es) auto

lemma stat_remove_node:
  "src \<noteq> [] \<Longrightarrow> stat (remove_node src t) q = (if prefix src q then None else stat t q)"
proof (induction src t arbitrary: q rule: remove_node.induct)
  case (1 t)
  then show ?case by simp
next
  case (2 n p c)
  then show ?case by (cases q) auto
next
  case (3 n es)
  then show ?case
    by (cases q) (auto simp: stat_Dir_Cons map_of_filter_other)
next
  case (4 n v va es)
  show ?case
  proof (cases q)
    case Nil
    then show ?thesis by simp
  next
    case (Cons m q')
    show ?thesis
    proof (cases "m = n")
      case False
      then show ?thesis using Cons by (simp add: stat_Dir_Cons map_of_update_entries)
    next
      case True
      show ?thesis
      proof (cases "map_of es n")
        case None
        then show ?thesis using Cons True by (simp add: stat_Dir_Cons map_of_update_entries)
      next
        case (Some x)
        then have "(n, x) \<in> set es" by (rule map_of_SomeD)
        then have "stat (remove_node (v # va) x) q' = (if prefix (v # va) q' then None else stat x q')"
          using "4.IH"[of "(n, x)" q'] by simp
        then show ?thesis using Cons True Some by (simp add: stat_Dir_Cons map_of_update_entries)
      qed
    qed
  qed
qed

lemma stat_insert_node:
  "dst \<noteq> [] \<Longrightarrow> stat t (butlast dst) = Some Directory \<Longrightarrow>
   stat (insert_node dst x t) q = (if prefix dst q then stat x (drop (length dst) q) else stat t q)"
proof (induction dst x t arbitrary: q rule: insert_node.induct)
  case (1 x t)
  then show ?case by simp
next
  case (2 n p x c)
  then show ?case by (cases p) auto
next
  case (3 n x es)
  then show ?case
    by (cases q) (auto simp: stat_Dir_Cons map_of_filter_other map_add_def split: option.splits)
next
  case (4 n v va x es)
  from "4.prems" obtain y where y: "map_of es n = Some y" "stat y (butlast (v # va)) = Some Directory"
    by (auto simp: stat_Dir_Cons split: option.splits)
  then have mem: "(n, y) \<in> set es" by (auto dest: map_of_SomeD)
  show ?case
  proof (cases q)
    case Nil
    then show ?thesis by simp
  next
    case (Cons m q')
    show ?thesis
    proof (cases "m = n")
      case False
      then show ?thesis using Cons by (simp add: stat_Dir_Cons map_of_update_entries)
    next
      case True
      have "stat (insert_node (v # va) x y) q' =
              (if prefix (v # va) q' then stat x (drop (length (v # va)) q') else stat y q')"
        using "4.IH"[of "(n, y)" q'] mem y by simp
      then show ?thesis using Cons True y by (simp add: stat_Dir_Cons map_of_update_entries)
    qed
  qed
qed

lemma fst_comp_update_entries:
  "fst \<circ> (\<lambda>e. if fst e = n then (n, f (snd e)) else e) = fst"
  by (auto simp: fun_eq_iff)

lemma wf_remove_node: "wf_node t \<Longrightarrow> wf_node (remove_node src t)"
proof (induction src t rule: remove_node.induct)
  case (4 n v va es)
  then show ?case by (auto simp: list_all_iff fst_comp_update_entries)
qed (auto simp: list_all_iff distinct_map_filter)

lemma wf_insert_node: "wf_node t \<Longrightarrow> wf_node x \<Longrightarrow> wf_node (insert_node dst x t)"
proof (induction dst x t rule: insert_node.induct)
  case (4 n v va x es)
  then show ?case by (auto simp: list_all_iff fst_comp_update_entries)
qed (auto simp: list_all_iff distinct_map_filter)

section \<open>Renaming a file\<close>

lemma exists_stat: "os_path_exists t p = (stat t p \<noteq> None)"
  by (simp add: os_path_exists_def stat_def)

lemma isdir_stat: "os_path_isdir t p = (stat t p = Some Directory)"
  by (auto simp: os_path_isdir_def stat_def split: option.splits elim: kind_of.elims is_Dir.elims)

lemma stat_Regular_node: "stat t p = Some (Regular c) \<longleftrightarrow> node_at t p = Some (File c)"
  by (auto simp: stat_def elim: kind_of.elims)

lemma stat_None_node: "stat t p = None \<longleftrightarrow> node_at t p = None"
  by (simp add: stat_def)

lemma prefix_stat_None:
  assumes "stat t p = None" "prefix p q"
  shows "stat t q = None"
  using assms by (auto simp: prefix_def stat_append_None)

lemma prefix_stat_Regular:
  assumes "stat t p = Some (Regular c)" "prefix p q" "q \<noteq> p"
  shows "stat t q = None"
proof -
  from assms obtain zs where "q = p @ zs" "zs \<noteq> []" by (auto simp: prefix_def)
  then show ?thesis using assms(1) by (simp add: stat_append_Regular)
qed

lemma os_rename_missing: "stat t src = None \<Longrightarrow> os_rename src dst t = Inl FileNotFoundError"
  by (simp add: os_rename_def stat_None_node)

lemma os_rename_no_parent:
  assumes "stat t src = Some (Regular c)" "stat t (p @ [b]) = None" "stat t p \<noteq> Some Directory"
  shows "\<exists>e. os_rename src (p @ [b]) t = Inl e"
proof -
  have "src \<noteq> p @ [b]" using assms by auto
  then show ?thesis using assms
    by (auto simp: os_rename_def stat_Regular_node isdir_stat)
qed

lemma os_rename_file:
  assumes src: "stat t src = Some (Regular c)" and dst: "stat t (p @ [b]) = None"
    and par: "stat t p = Some Directory"
  shows "\<exists>t'. os_rename src (p @ [b]) t = Inr t' \<and>
           stat t' = (stat t)(src := None, p @ [b] \<mapsto> Regular c) \<and>
           (wf_node t \<longrightarrow> wf_node t')"
proof -
  let ?dst = "p @ [b]"
  let ?t' = "insert_node ?dst (File c) (remove_node src t)"
  have ne: "src \<noteq> ?dst" using src dst by auto
  have np: "\<not> prefix src ?dst"
  proof
    assume "prefix src ?dst"
    then have "stat t ?dst = None \<and> prefix src p"
      using ne dst by (auto simp: prefix_snoc)
    then have "stat t p = None \<or> p = src" using prefix_stat_Regular[OF src] by blast
    then show False using par src by auto
  qed
  then have src_ne: "src \<noteq> []" by auto
  have npp: "\<not> prefix src p" using np by (auto simp: prefix_def)
  have r: "os_rename src ?dst t = Inr ?t'"
    using src dst par ne np
    by (simp add: os_rename_def stat_Regular_node isdir_stat) (simp add: stat_None_node)
  have par': "stat (remove_node src t) (butlast ?dst) = Some Directory"
    using par npp src_ne by (simp add: stat_remove_node)
  have "stat ?t' q = ((stat t)(src := None, ?dst \<mapsto> Regular c)) q" for q
  proof -
    have "stat ?t' q = (if prefix ?dst q then stat (File c) (drop (length ?dst) q)
                        else if prefix src q then None else stat t q)"
      using stat_insert_node[OF _ par', of "File c" q] src_ne by (simp add: stat_remove_node)
    moreover have "prefix ?dst q \<Longrightarrow> q \<noteq> ?dst \<Longrightarrow> stat (File c) (drop (length ?dst) q) = None"
      by (cases "drop (length ?dst) q") (auto simp: prefix_def)
    moreover have "prefix ?dst q \<Longrightarrow> q \<noteq> src \<and> stat t q = None"
      using prefix_stat_None[OF dst] src by auto
    moreover have "prefix src q \<Longrightarrow> q \<noteq> src \<Longrightarrow> stat t q = None"
      using prefix_stat_Regular[OF src] by blast
    ultimately show ?thesis by auto
  qed
  then have "stat ?t' = (stat t)(src := None, ?dst \<mapsto> Regular c)" by blast
  moreover have "wf_node t \<longrightarrow> wf_node ?t'"
    by (simp add: wf_insert_node wf_remove_node)
  ultimately show ?thesis using r by blast
qed

section \<open>One iteration of the move loop\<close>

lemma stat_insert_file:
  assumes "stat t (p @ [b]) = None" "stat t p = Some Directory"
  shows "stat (insert_node (p @ [b]) (File c) t) = (stat t)(p @ [b] \<mapsto> Regular c)"
proof
  fix q
  have "stat (insert_node (p @ [b]) (File c) t) q =
          (if prefix (p @ [b]) q then stat (File c) (drop (length (p @ [b])) q) else stat t q)"
    using stat_insert_node[of "p @ [b]" t "File c" q] assms(2) by simp
  moreover have "prefix (p @ [b]) q \<Longrightarrow> q \<noteq> p @ [b] \<Longrightarrow>
      stat (File c) (drop (length (p @ [b])) q) = None"
    by (cases "drop (length (p @ [b])) q") (auto simp: prefix_def)
  moreover have "prefix (p @ [b]) q \<Longrightarrow> stat t q = None"
    using prefix_stat_None[OF assms(1)] by blast
  ultimately show "stat (insert_node (p @ [b]) (File c) t) q = ((stat t)(p @ [b] \<mapsto> Regular c)) q"
    by auto
qed

lemma stat_remove_file:
  assumes "stat t src = Some (Regular c)" "src \<noteq> []"
  shows "stat (remove_node src t) = (stat t)(src := None)"
proof
  fix q
  have "prefix src q \<Longrightarrow> q \<noteq> src \<Longrightarrow> stat t q = None"
    using prefix_stat_Regular[OF assms(1)] by blast
  then show "stat (remove_node src t) q = ((stat t)(src := None)) q"
    using assms(2) by (auto simp: stat_remove_node)
qed

lemma script_fault_effect:
  assumes "script_fault s = (f, s1)"
  shows "snd s1 = snd s \<and> (fst s = [] \<longrightarrow> fst s1 = [] \<and> f = None)"
  using assms by (cases "fst s") (auto simp: script_fault_def)

lemma script_progress_effect:
  assumes "script_progress s = (k, s1)"
  shows "fst s1 = fst s"
  using assms by (cases "snd s") (auto simp: script_progress_def)

lemma os_rename_call_effect:
  assumes "os_rename_call src dst t s = (r, t1, s1)"
  shows "(fst s = [] \<longrightarrow> fst s1 = []) \<and>
         (case r of
            Inl e \<Rightarrow> t1 = t \<and> (fst s = [] \<longrightarrow> os_rename src dst t = Inl e)
          | Inr u \<Rightarrow> os_rename src dst t = Inr t1)"
proof -
  obtain f sa where sf: "script_fault s = (f, sa)" by (metis surj_pair)
  note fe = script_fault_effect[OF sf]
  show ?thesis
    using assms fe
    by (auto simp: os_rename_call_def sf split: option.splits sum.splits)
qed

lemma shutil_copy2_effect:
  assumes dst: "stat t (p @ [b]) = None"
    and src: "stat t src \<noteq> Some Directory"
    and cp: "shutil_copy2 src (p @ [b]) t s = (r, t1, s1)"
  shows "(fst s = [] \<longrightarrow> fst s1 = []) \<and>
         ((\<exists>e. r = Inl e \<and> t1 = t) \<or>
          (\<exists>e c k. r = Inl e \<and> stat t src = Some (Regular c) \<and> stat t p = Some Directory \<and>
               t1 = insert_node (p @ [b]) (File (take k c)) t) \<or>
          (\<exists>c. r = Inr () \<and> stat t src = Some (Regular c) \<and> stat t p = Some Directory \<and>
               t1 = insert_node (p @ [b]) (File c) t))"
proof -
  let ?d = "p @ [b]"
  have nodir: "\<not> os_path_isdir t ?d" using dst by (simp add: isdir_stat)
  obtain f sa where sf: "script_fault s = (f, sa)" by (metis surj_pair)
  note fe = script_fault_effect[OF sf]
  obtain k sb where sp: "script_progress sa = (k, sb)" by (metis surj_pair)
  have sb: "fst s = [] \<longrightarrow> fst sb = []"
    using fe script_progress_effect[OF sp] by simp
  show ?thesis
  proof (cases "node_at t src")
    case None
    then show ?thesis using cp fe nodir by (auto simp: shutil_copy2_def Let_def sf)
  next
    case (Some x)
    then obtain c where c: "node_at t src = Some (File c)"
      using src by (cases x) (auto simp: stat_def)
    then have sc: "stat t src = Some (Regular c)" by (simp add: stat_Regular_node)
    have ne: "src \<noteq> ?d" using sc dst by auto
    show ?thesis
    proof (cases "os_path_isdir t p")
      case False
      then show ?thesis using cp fe nodir c ne
        by (auto simp: shutil_copy2_def Let_def sf)
    next
      case True
      then have par: "stat t p = Some Directory" by (simp add: isdir_stat)
      show ?thesis
      proof (cases f)
        case None
        then show ?thesis using cp fe nodir c ne True sc par
          by (auto simp: shutil_copy2_def Let_def sf)
      next
        case (Some e)
        then show ?thesis using cp fe nodir sb c ne True sc par
          by (cases k) (auto simp: shutil_copy2_def Let_def sf sp)
      qed
    qed
  qed
qed

lemma os_unlink_effect:
  assumes "os_unlink src t s = (r, t1, s1)"
  shows "(fst s = [] \<longrightarrow> fst s1 = []) \<and>
         ((\<exists>e. r = Inl e \<and> t1 = t) \<or>
          (r = Inr () \<and> (\<exists>c. node_at t src = Some (File c)) \<and> t1 = remove_node src t))"
proof -
  obtain f sa where sf: "script_fault s = (f, sa)" by (metis surj_pair)
  note fe = script_fault_effect[OF sf]
  show ?thesis
    using assms fe
    by (auto simp: os_unlink_def sf split: option.splits node.splits)
qed

text \<open>
  Moving a regular file onto a path that does not exist has three outcomes: the move
  fails and the tree is as it was; the move fails after the copy created the
  destination, with the content of the source or the beginning of it; or the file is at
  the destination and no longer at its path.
\<close>

lemma shutil_move_env_effect:
  assumes dst: "stat t (p @ [b]) = None"
    and src: "stat t src \<noteq> Some Directory"
    and mv: "shutil_move_env src (p @ [b]) t s = (r, t1, s1)"
  shows "(fst s = [] \<longrightarrow> fst s1 = []) \<and>
         ((\<exists>e. r = Inl e \<and> t1 = t) \<or>
          (\<exists>e c k. r = Inl e \<and> fst s \<noteq> [] \<and> stat t src = Some (Regular c) \<and>
               stat t p = Some Directory \<and>
               stat t1 = (stat t)(p @ [b] \<mapsto> Regular (take k c)) \<and>
               (wf_node t \<longrightarrow> wf_node t1)) \<or>
          (\<exists>c. r = Inr () \<and> stat t src = Some (Regular c) \<and>
               stat t p = Some Directory \<and>
               stat t1 = (stat t)(src := None, p @ [b] \<mapsto> Regular c) \<and>
               (wf_node t \<longrightarrow> wf_node t1)))"
proof -
  let ?d = "p @ [b]"
  have nodir: "\<not> os_path_isdir t ?d" using dst by (simp add: isdir_stat)
  obtain rr tr sr where rc: "os_rename_call src ?d t s = (rr, tr, sr)"
    by (metis prod.exhaust)
  note re = os_rename_call_effect[OF rc]
  have sr: "fst s = [] \<longrightarrow> fst sr = []" using re by simp
  show ?thesis
  proof (cases rr)
    case (Inr u)
    then have ok: "os_rename src ?d t = Inr tr" using re by simp
    have w1: "t1 = tr" "s1 = sr" "r = Inr ()"
      using mv rc nodir Inr by (auto simp: shutil_move_env_def Let_def)
    have "stat t src \<noteq> None"
      using ok os_rename_missing[of t src ?d] by auto
    then obtain c where c: "stat t src = Some (Regular c)"
      using src by (metis kind.exhaust option.exhaust)
    have par: "stat t p = Some Directory"
      using os_rename_no_parent[OF c dst] ok by auto
    from os_rename_file[OF c dst par] ok
    have "stat tr = (stat t)(src := None, ?d \<mapsto> Regular c)"
      "wf_node t \<longrightarrow> wf_node tr" by auto
    then show ?thesis using w1 c par sr by auto
  next
    case (Inl e0)
    then have tr: "tr = t"
      and det: "fst s = [] \<longrightarrow> os_rename src ?d t = Inl e0"
      using re by simp_all
    have notdir: "\<forall>es. node_at t src \<noteq> Some (Dir es)"
      using src by (auto simp: stat_def)
    obtain rcp t2 s2 where cp: "shutil_copy2 src ?d t sr = (rcp, t2, s2)"
      by (metis prod.exhaust)
    have mv2: "(case rcp of Inl e' \<Rightarrow> (Inl e', t2, s2) | Inr u \<Rightarrow> os_unlink src t2 s2) =
               (r, t1, s1)"
      using mv rc nodir Inl cp notdir tr
      by (auto simp: shutil_move_env_def Let_def split: option.splits node.splits)
    note ce = shutil_copy2_effect[OF dst src cp]
    have s2: "fst s = [] \<longrightarrow> fst s2 = []" using ce sr by auto
    have injected: "fst s \<noteq> []"
      if "stat t src = Some (Regular c)" "stat t p = Some Directory" for c
      using os_rename_file[OF that(1) dst that(2)] det by auto
    from ce consider
      (unchanged) e where "rcp = Inl e" "t2 = t"
      | (left) e c k where "rcp = Inl e" "stat t src = Some (Regular c)"
          "stat t p = Some Directory" "t2 = insert_node ?d (File (take k c)) t"
      | (copied) c where "rcp = Inr ()" "stat t src = Some (Regular c)"
          "stat t p = Some Directory" "t2 = insert_node ?d (File c) t"
      by auto
    then show ?thesis
    proof cases
      case unchanged
      then show ?thesis using mv2 s2 by auto
    next
      case left
      have "stat t2 = (stat t)(?d \<mapsto> Regular (take k c))"
        using left(4) stat_insert_file[OF dst left(3)] by simp
      moreover have "wf_node t \<longrightarrow> wf_node t2"
        using left(4) by (simp add: wf_insert_node)
      ultimately show ?thesis using mv2 left(1,2,3) s2 injected[OF left(2,3)] by auto
    next
      case copied
      have st2: "stat t2 = (stat t)(?d \<mapsto> Regular c)"
        using copied(4) stat_insert_file[OF dst copied(3)] by simp
      have wf2: "wf_node t \<longrightarrow> wf_node t2"
        using copied(4) by (simp add: wf_insert_node)
      have ne: "src \<noteq> ?d" using copied(2) dst by auto
      have src_ne: "src \<noteq> []"
      proof
        assume "src = []"
        then have "stat t p \<noteq> Some Directory"
          using copied(2) stat_append_Regular[of t "[]" c p] by (cases p) auto
        then show False using copied(3) by simp
      qed
      have mv3: "os_unlink src t2 s2 = (r, t1, s1)" using mv2 copied(1) by simp
      note ue = os_unlink_effect[OF mv3]
      have s1: "fst s = [] \<longrightarrow> fst s1 = []" using ue s2 by auto
      from ue consider (kept) e where "r = Inl e" "t1 = t2"
        | (removed) "r = Inr ()" "t1 = remove_node src t2" by auto
      then show ?thesis
      proof cases
        case kept
        have "stat t1 = (stat t)(?d \<mapsto> Regular (take (length c) c))"
          using kept(2) st2 by simp
        then show ?thesis
          using kept wf2 s1 copied(2,3) injected[OF copied(2,3)] by blast
      next
        case removed
        have "stat t2 src = Some (Regular c)" using st2 ne copied(2) by simp
        then have "stat t1 = (stat t2)(src := None)"
          using removed(2) stat_remove_file[OF _ src_ne] by simp
        then have "stat t1 = (stat t)(src := None, ?d \<mapsto> Regular c)"
          using st2 ne by (auto simp: fun_upd_twist)
        moreover have "wf_node t \<longrightarrow> wf_node t1"
          using wf2 removed(2) by (simp add: wf_remove_node)
        ultimately show ?thesis using removed(1) copied(2,3) s1 by auto
      qed
    qed
  qed
qed

lemma shutil_move_effect:
  assumes dst: "stat (tree w) (p @ [b]) = None"
    and src: "stat (tree w) src \<noteq> Some Directory"
    and mv: "shutil_move src (p @ [b]) w = (r, w1)"
  shows "calls w1 = calls w @ [Move src (p @ [b])] \<and> logged w1 = logged w \<and>
         (faults w = [] \<longrightarrow> faults w1 = []) \<and>
         ((\<exists>e. r = Inl e \<and> tree w1 = tree w) \<or>
          (\<exists>e c k. r = Inl e \<and> faults w \<noteq> [] \<and> stat (tree w) src = Some (Regular c) \<and>
               stat (tree w) p = Some Directory \<and>
               stat (tree w1) = (stat (tree w))(p @ [b] \<mapsto> Regular (take k c)) \<and>
               (wf_node (tree w) \<longrightarrow> wf_node (tree w1))) \<or>
          (\<exists>c. r = Inr () \<and> stat (tree w) src = Some (Regular c) \<and>
               stat (tree w) p = Some Directory \<and>
               stat (tree w1) = (stat (tree w))(src := None, p @ [b] \<mapsto> Regular c) \<and>
               (wf_node (tree w) \<longrightarrow> wf_node (tree w1))))"
proof -
  obtain r' t1 s1 where
    env: "shutil_move_env src (p @ [b]) (tree w) (faults w, progress w) = (r', t1, s1)"
    by (metis prod.exhaust)
  have w1: "r = r'" "tree w1 = t1" "faults w1 = fst s1"
    "calls w1 = calls w @ [Move src (p @ [b])]" "logged w1 = logged w"
    using mv env by (auto simp: shutil_move_def)
  from shutil_move_env_effect[OF dst src env] show ?thesis
    unfolding w1 by simp
qed

lemma shutil_move_succeeds:
  assumes dst: "stat (tree w) (p @ [b]) = None"
    and src: "stat (tree w) src = Some (Regular c)"
    and par: "stat (tree w) p = Some Directory"
    and nof: "faults w = []"
  shows "fst (shutil_move src (p @ [b]) w) = Inr ()"
proof -
  have nodir: "\<not> os_path_isdir (tree w) (p @ [b])" using dst by (simp add: isdir_stat)
  from os_rename_file[OF src dst par] obtain t' where
    "os_rename src (p @ [b]) (tree w) = Inr t'" by blast
  then show ?thesis using nof nodir
    by (simp add: shutil_move_def shutil_move_env_def os_rename_call_def script_fault_def Let_def)
qed

text \<open>One iteration of the loop of move_dcm_files.\<close>

lemma move_loop_Cons:
  "move_loop (f # rest) P n w = (case move_loop [f] P n w of (n1, w1) \<Rightarrow> move_loop rest P n1 w1)"
  by (simp add: Let_def split: prod.splits sum.splits)

lemma move_loop_append:
  "move_loop (xs @ ys) P n w = (case move_loop xs P n w of (n1, w1) \<Rightarrow> move_loop ys P n1 w1)"
proof (induction xs arbitrary: n w)
  case Nil
  then show ?case by simp
next
  case (Cons f xs)
  show ?case
    by (simp only: append_Cons move_loop_Cons[of f "xs @ ys"] move_loop_Cons[of f xs] Cons.IH
          split: prod.splits) auto
qed

lemma move_one_cases:
  assumes step: "move_loop [f] P n w = (n', w')"
    and nodir: "stat (tree w) f \<noteq> Some Directory"
  obtains
    (skip) "stat (tree w) (dest P f) \<noteq> None" "n' = n" "tree w' = tree w"
      "faults w' = faults w" "calls w' = calls w"
      "logged w' = logged w @ [(WARNING, Already_exists (dest P f))]"
  | (fail) e where "stat (tree w) (dest P f) = None" "n' = n" "tree w' = tree w"
      "faults w = [] \<longrightarrow> faults w' = []" "calls w' = calls w @ [Move f (dest P f)]"
      "logged w' = logged w @ [(ERROR, Error_moving f e)]"
  | (partial) e c c' where "stat (tree w) (dest P f) = None" "n' = n"
      "stat (tree w) f = Some (Regular c)" "faults w \<noteq> []"
      "stat (tree w') = (stat (tree w))(dest P f \<mapsto> Regular c')"
      "wf_node (tree w) \<longrightarrow> wf_node (tree w')"
      "calls w' = calls w @ [Move f (dest P f)]"
      "logged w' = logged w @ [(ERROR, Error_moving f e)]"
  | (moved) c where "stat (tree w) (dest P f) = None" "n' = n + 1"
      "stat (tree w) f = Some (Regular c)" "stat (tree w) P = Some Directory"
      "stat (tree w') = (stat (tree w))(f := None, dest P f \<mapsto> Regular c)"
      "wf_node (tree w) \<longrightarrow> wf_node (tree w')"
      "faults w = [] \<longrightarrow> faults w' = []" "calls w' = calls w @ [Move f (dest P f)]"
      "logged w' = logged w"
proof (cases "stat (tree w) (dest P f) = None")
  case False
  then have "os_path_exists (tree w) (os_path_join P (os_path_basename f))"
    by (simp add: exists_stat dest_def)
  then have "n' = n" "w' = logger_warning (Already_exists (dest P f)) w"
    using step by (auto simp: dest_def)
  then show ?thesis using False skip by (simp add: logger_warning_def)
next
  case True
  have d: "dest P f = P @ [os_path_basename f]" by (simp add: dest_def os_path_join_def)
  obtain r w1 where mv: "shutil_move f (dest P f) w = (r, w1)" by force
  have ne: "\<not> os_path_exists (tree w) (os_path_join P (os_path_basename f))"
    using True by (simp add: exists_stat dest_def)
  note eff = shutil_move_effect[OF True[unfolded d] nodir mv[unfolded d], folded d]
  show ?thesis
  proof (cases r)
    case (Inl e)
    then have nw: "n' = n" "w' = logger_error (Error_moving f e) w1"
      using step ne mv by (auto simp: dest_def)
    from eff Inl consider (same) "tree w1 = tree w"
      | (left) c c' where "faults w \<noteq> []" "stat (tree w) f = Some (Regular c)"
          "stat (tree w1) = (stat (tree w))(dest P f \<mapsto> Regular c')"
          "wf_node (tree w) \<longrightarrow> wf_node (tree w1)"
      by blast
    then show ?thesis
    proof cases
      case same
      then show ?thesis using fail[where e=e] True eff nw by (auto simp: logger_error_def)
    next
      case left
      then show ?thesis using partial[where e=e and c=c and c'=c'] True eff nw
        by (auto simp: logger_error_def)
    qed
  next
    case (Inr u)
    then have "n' = n + 1" "w' = w1"
      using step ne mv by (auto simp: dest_def)
    then show ?thesis using moved True eff Inr by auto
  qed
qed

lemma dest_snoc [simp]: "dest P (p @ [b]) = P @ [b]"
  by (simp add: dest_def os_path_join_def os_path_basename_def)

lemma dest_eq_snoc: "dest P f = P @ [b] \<longleftrightarrow> os_path_basename f = b"
  by (simp add: dest_def os_path_join_def)

lemma dest_append: "r \<noteq> [] \<Longrightarrow> dest P (q @ r) = P @ [last r]"
  by (simp add: dest_def os_path_join_def os_path_basename_def)

lemma prefix_dest [simp]: "prefix P (dest P f)"
  by (simp add: dest_def os_path_join_def)

lemma dest_ne [simp]: "dest P f \<noteq> P"
  by (simp add: dest_def os_path_join_def)

lemma move_one_fail_cause:
  assumes "move_loop [f] P n w = (n', w')" "faults w = []"
    "stat (tree w) f = Some (Regular c)" "stat (tree w) P = Some Directory"
    "stat (tree w) (dest P f) = None"
  shows "n' = n + 1"
proof -
  have d: "dest P f = P @ [os_path_basename f]" by (simp add: dest_def os_path_join_def)
  have "fst (shutil_move f (dest P f) w) = Inr ()"
    using shutil_move_succeeds[OF assms(5)[unfolded d] assms(3) assms(4) assms(2)] d by simp
  then obtain w1 where "shutil_move f (dest P f) w = (Inr (), w1)"
    by (cases "shutil_move f (dest P f) w") auto
  then show ?thesis using assms(1) assms(5)
    by (auto simp: exists_stat dest_def)
qed

lemma move_loop_induct [consumes 2, case_names Nil skip fail partial moved]:
  assumes run: "move_loop fs P n w = (n', w')"
    and nd: "no_dirs (tree w) fs"
    and Nil: "Q [] n' w'"
    and skip: "\<And>f rest n w w1.
        \<lbrakk>stat (tree w) (dest P f) \<noteq> None; tree w1 = tree w; faults w1 = faults w;
         calls w1 = calls w; logged w1 = logged w @ [(WARNING, Already_exists (dest P f))];
         move_loop rest P n w1 = (n', w'); no_dirs (tree w) (f # rest); no_dirs (tree w1) rest;
         Q rest n w1\<rbrakk> \<Longrightarrow> Q (f # rest) n w"
    and fail: "\<And>f rest n w w1 e.
        \<lbrakk>stat (tree w) (dest P f) = None; tree w1 = tree w; faults w = [] \<longrightarrow> faults w1 = [];
         calls w1 = calls w @ [Move f (dest P f)];
         logged w1 = logged w @ [(ERROR, Error_moving f e)];
         \<not> (faults w = [] \<and> (\<exists>c. stat (tree w) f = Some (Regular c)) \<and>
            stat (tree w) P = Some Directory);
         move_loop rest P n w1 = (n', w'); no_dirs (tree w) (f # rest); no_dirs (tree w1) rest;
         Q rest n w1\<rbrakk> \<Longrightarrow> Q (f # rest) n w"
    and partial: "\<And>f rest n w w1 e c c'.
        \<lbrakk>stat (tree w) (dest P f) = None; stat (tree w) f = Some (Regular c); faults w \<noteq> [];
         \<forall>q. stat (tree w1) q = (if q = dest P f then Some (Regular c') else stat (tree w) q);
         wf_node (tree w) \<longrightarrow> wf_node (tree w1);
         calls w1 = calls w @ [Move f (dest P f)];
         logged w1 = logged w @ [(ERROR, Error_moving f e)];
         move_loop rest P n w1 = (n', w'); no_dirs (tree w) (f # rest); no_dirs (tree w1) rest;
         Q rest n w1\<rbrakk> \<Longrightarrow> Q (f # rest) n w"
    and moved: "\<And>f rest n w w1 c.
        \<lbrakk>stat (tree w) (dest P f) = None; stat (tree w) f = Some (Regular c);
         stat (tree w) P = Some Directory; \<forall>b. f \<noteq> P @ [b];
         \<forall>q. stat (tree w1) q = (if q = dest P f then Some (Regular c)
                                   else if q = f then None else stat (tree w) q);
         wf_node (tree w) \<longrightarrow> wf_node (tree w1);
         faults w = [] \<longrightarrow> faults w1 = []; calls w1 = calls w @ [Move f (dest P f)];
         logged w1 = logged w;
         move_loop rest P (n + 1) w1 = (n', w'); no_dirs (tree w) (f # rest); no_dirs (tree w1) rest;
         Q rest (n + 1) w1\<rbrakk> \<Longrightarrow> Q (f # rest) n w"
  shows "Q fs n w"
  using run nd
proof (induction fs arbitrary: n w)
  case Nil
  then show ?case using assms(3) by simp
next
  case (Cons f rest)
  obtain n1 w1 where one: "move_loop [f] P n w = (n1, w1)" by force
  then have rest: "move_loop rest P n1 w1 = (n', w')"
    using Cons.prems(1) by (simp only: move_loop_Cons[of f rest P n w] prod.case)
  have fnd: "stat (tree w) f \<noteq> Some Directory" using Cons.prems(2) by (simp add: no_dirs_def)
  from one fnd show ?case
  proof (cases rule: move_one_cases)
    case skip
    then have nd1: "no_dirs (tree w1) rest" using Cons.prems(2) by (simp add: no_dirs_def)
    show ?thesis
      using assms(4)[OF skip(1,3,4,5,6) rest[unfolded skip(2)] Cons.prems(2) nd1]
        Cons.IH[OF rest nd1] skip(2) by simp
  next
    case (fail e)
    then have nd1: "no_dirs (tree w1) rest" using Cons.prems(2) by (simp add: no_dirs_def)
    have cause: "\<not> (faults w = [] \<and> (\<exists>c. stat (tree w) f = Some (Regular c)) \<and>
            stat (tree w) P = Some Directory)"
      using move_one_fail_cause[OF one] fail(1,2) by auto
    show ?thesis
      using assms(5)[OF fail(1,3,4,5,6) cause rest[unfolded fail(2)] Cons.prems(2) nd1]
        Cons.IH[OF rest nd1] fail(2) by simp
  next
    case (partial e c c')
    have nd1: "no_dirs (tree w1) rest"
      using Cons.prems(2) partial(5) by (auto simp: no_dirs_def)
    have pt: "\<forall>q. stat (tree w1) q = (if q = dest P f then Some (Regular c')
                                   else stat (tree w) q)"
      using partial(5) by simp
    show ?thesis
      using assms(6)[OF partial(1,3,4) pt partial(6,7,8) rest[unfolded partial(2)]
          Cons.prems(2) nd1]
        Cons.IH[OF rest nd1] partial(2) by simp
  next
    case (moved c)
    have notop: "\<forall>b. f \<noteq> P @ [b]"
    proof (intro allI notI)
      fix b assume "f = P @ [b]"
      then have "dest P f = f" by simp
      then show False using moved(1,3) by simp
    qed
    have nd1: "no_dirs (tree w1) rest"
      using Cons.prems(2) moved(5) by (auto simp: no_dirs_def)
    have pt: "\<forall>q. stat (tree w1) q = (if q = dest P f then Some (Regular c)
                                   else if q = f then None else stat (tree w) q)"
      using moved(5) by simp
    show ?thesis
      using assms(7)[OF moved(1,3,4) notop pt moved(6,7,8,9) rest[unfolded moved(2)]
          Cons.prems(2) nd1]
        Cons.IH[OF rest nd1] moved(2) by simp
  qed
qed

section \<open>The move loop over a list of candidates\<close>

lemma batch_dirs:
  assumes "move_loop fs P n w = (n', w')" "no_dirs (tree w) fs"
  shows "stat (tree w') q = Some Directory \<longleftrightarrow> stat (tree w) q = Some Directory"
  using assms
proof (induction rule: move_loop_induct)
  case (partial f rest n w w1 e c c')
  have "stat (tree w1) q = Some Directory \<longleftrightarrow> stat (tree w) q = Some Directory"
    using partial(1,4) by auto
  then show ?case using partial(11) by simp
next
  case (moved f rest n w w1 c)
  have "stat (tree w1) q = Some Directory \<longleftrightarrow> stat (tree w) q = Some Directory"
    using moved(1,2,5) by auto
  then show ?case using moved(13) by simp
qed auto

lemma batch_faults:
  assumes "move_loop fs P n w = (n', w')" "no_dirs (tree w) fs"
  shows "faults w = [] \<longrightarrow> faults w' = []"
  using assms by (induction rule: move_loop_induct) auto

lemma batch_wf:
  assumes "move_loop fs P n w = (n', w')" "no_dirs (tree w) fs"
  shows "wf_node (tree w) \<longrightarrow> wf_node (tree w')"
  using assms by (induction rule: move_loop_induct) auto

lemma batch_top_level:
  assumes "move_loop fs P n w = (n', w')" "no_dirs (tree w) fs"
  shows "stat (tree w) (P @ [b]) = Some k \<longrightarrow> stat (tree w') (P @ [b]) = Some k"
  using assms
proof (induction rule: move_loop_induct)
  case (partial f rest n w w1 e c c')
  show ?case
  proof
    assume a: "stat (tree w) (P @ [b]) = Some k"
    then have "P @ [b] \<noteq> dest P f" using partial(1) by auto
    then have "stat (tree w1) (P @ [b]) = Some k" using partial(4) a by simp
    then show "stat (tree w') (P @ [b]) = Some k" using partial(11) by simp
  qed
next
  case (moved f rest n w w1 c)
  show ?case
  proof
    assume a: "stat (tree w) (P @ [b]) = Some k"
    then have "P @ [b] \<noteq> dest P f" "P @ [b] \<noteq> f" using moved(1,4) by auto
    then have "stat (tree w1) (P @ [b]) = Some k" using moved(5) a by simp
    then show "stat (tree w') (P @ [b]) = Some k" using moved(13) by simp
  qed
qed auto

lemma batch_stays_gone:
  assumes "move_loop fs P n w = (n', w')" "no_dirs (tree w) fs"
  shows "stat (tree w) q = None \<longrightarrow> (\<forall>f\<in>set fs. q \<noteq> dest P f) \<longrightarrow> stat (tree w') q = None"
  using assms
proof (induction rule: move_loop_induct)
  case (partial f rest n w w1 e c c')
  show ?case
  proof (intro impI)
    assume a: "stat (tree w) q = None" "\<forall>f\<in>set (f # rest). q \<noteq> dest P f"
    then have "stat (tree w1) q = None" using partial(4) by simp
    then show "stat (tree w') q = None" using partial(11) a(2) by simp
  qed
next
  case (moved f rest n w w1 c)
  show ?case
  proof (intro impI)
    assume a: "stat (tree w) q = None" "\<forall>f\<in>set (f # rest). q \<noteq> dest P f"
    then have "stat (tree w1) q = None" using moved(5) by simp
    then show "stat (tree w') q = None" using moved(13) a(2) by simp
  qed
qed auto

lemma batch_others:
  assumes "move_loop fs P n w = (n', w')" "no_dirs (tree w) fs"
  shows "q \<notin> set fs \<longrightarrow> stat (tree w) q = Some k \<longrightarrow> stat (tree w') q = Some k"
  using assms
proof (induction rule: move_loop_induct)
  case (partial f rest n w w1 e c c')
  show ?case
  proof (intro impI)
    assume a: "q \<notin> set (f # rest)" "stat (tree w) q = Some k"
    then have "q \<noteq> dest P f" using partial(1) by auto
    then have "stat (tree w1) q = Some k" using partial(4) a by simp
    then show "stat (tree w') q = Some k" using partial(11) a(1) by simp
  qed
next
  case (moved f rest n w w1 c)
  show ?case
  proof (intro impI)
    assume a: "q \<notin> set (f # rest)" "stat (tree w) q = Some k"
    then have "q \<noteq> dest P f" "q \<noteq> f" using moved(1) by auto
    then have "stat (tree w1) q = Some k" using moved(5) a by simp
    then show "stat (tree w') q = Some k" using moved(13) a(1) by simp
  qed
qed auto

lemma batch_skipped:
  assumes "move_loop fs P n w = (n', w')" "no_dirs (tree w) fs"
  shows "stat (tree w) (dest P q) \<noteq> None \<longrightarrow> stat (tree w) q = Some k \<longrightarrow>
         stat (tree w') q = Some k"
  using assms
proof (induction rule: move_loop_induct)
  case (partial f rest n w w1 e c c')
  show ?case
  proof (intro impI)
    assume a: "stat (tree w) (dest P q) \<noteq> None" "stat (tree w) q = Some k"
    have "q \<noteq> dest P f" using a(2) partial(1) by auto
    then have "stat (tree w1) q = Some k" using partial(4) a by simp
    moreover have "stat (tree w1) (dest P q) \<noteq> None" using partial(4) a by simp
    ultimately show "stat (tree w') q = Some k" using partial(11) by simp
  qed
next
  case (moved f rest n w w1 c)
  show ?case
  proof (intro impI)
    assume a: "stat (tree w) (dest P q) \<noteq> None" "stat (tree w) q = Some k"
    have 1: "dest P q \<noteq> f" using moved(4) by (auto simp: dest_def os_path_join_def)
    have 2: "q \<noteq> f" using a(1) moved(1) by auto
    have 3: "q \<noteq> dest P f" using a(2) moved(1) by auto
    have "stat (tree w1) q = Some k" using moved(5) a 2 3 by simp
    moreover have "stat (tree w1) (dest P q) \<noteq> None" using moved(5) a 1 by simp
    ultimately show "stat (tree w') q = Some k" using moved(13) by simp
  qed
qed auto

lemma batch_frame:
  assumes "move_loop fs P n w = (n', w')" "no_dirs (tree w) fs"
  shows "\<not> prefix P q \<longrightarrow> (\<forall>f\<in>set fs. prefix P f) \<longrightarrow> stat (tree w') q = stat (tree w) q"
  using assms
proof (induction rule: move_loop_induct)
  case (partial f rest n w w1 e c c')
  show ?case
  proof (intro impI)
    assume q: "\<not> prefix P q" and pf: "\<forall>f\<in>set (f # rest). prefix P f"
    then have "q \<noteq> dest P f" by auto
    then have "stat (tree w1) q = stat (tree w) q" using partial(4) by simp
    then show "stat (tree w') q = stat (tree w) q" using partial(11) q pf by simp
  qed
next
  case (moved f rest n w w1 c)
  show ?case
  proof (intro impI)
    assume q: "\<not> prefix P q" and pf: "\<forall>f\<in>set (f # rest). prefix P f"
    then have "q \<noteq> f" "q \<noteq> dest P f" by auto
    then have "stat (tree w1) q = stat (tree w) q" using moved(5) by simp
    then show "stat (tree w') q = stat (tree w) q" using moved(13) q pf by simp
  qed
qed auto

lemma batch_count:
  assumes "move_loop fs P n w = (n', w')" "no_dirs (tree w) fs"
  shows "n' = n + card {g \<in> set fs. (\<exists>c. stat (tree w) g = Some (Regular c)) \<and>
                                   stat (tree w') g = None}"
  using assms
proof (induction rule: move_loop_induct)
  case Nil
  then show ?case by simp
next
  case (skip f rest n w w1)
  have "stat (tree w) f = Some k \<Longrightarrow> f \<notin> set rest \<Longrightarrow> stat (tree w') f \<noteq> None" for k
    using batch_others[OF skip(6) skip(8), of f k] skip(2) by simp
  then have "{g \<in> set (f # rest). (\<exists>c. stat (tree w) g = Some (Regular c)) \<and> stat (tree w') g = None}
           = {g \<in> set rest. (\<exists>c. stat (tree w1) g = Some (Regular c)) \<and> stat (tree w') g = None}"
    unfolding skip(2) by (cases "f \<in> set rest") auto
  then show ?case using skip(9) by simp
next
  case (fail f rest n w w1 e)
  have "stat (tree w) f = Some k \<Longrightarrow> f \<notin> set rest \<Longrightarrow> stat (tree w') f \<noteq> None" for k
    using batch_others[OF fail(7) fail(9), of f k] fail(2) by simp
  then have "{g \<in> set (f # rest). (\<exists>c. stat (tree w) g = Some (Regular c)) \<and> stat (tree w') g = None}
           = {g \<in> set rest. (\<exists>c. stat (tree w1) g = Some (Regular c)) \<and> stat (tree w') g = None}"
    unfolding fail(2) by (cases "f \<in> set rest") auto
  then show ?case using fail(10) by simp
next
  case (partial f rest n w w1 e c c')
  have fd: "f \<noteq> dest P f" using partial(1,2) by auto
  then have "stat (tree w1) f = Some (Regular c)" using partial(2,4) by simp
  then have keep: "f \<notin> set rest \<Longrightarrow> stat (tree w') f \<noteq> None"
    using batch_others[OF partial(8) partial(10), of f "Regular c"] by simp
  have "stat (tree w1) (P @ [os_path_basename f]) = Some (Regular c')"
    using partial(4) by (simp add: dest_def os_path_join_def)
  then have left: "stat (tree w') (dest P f) \<noteq> None"
    using batch_top_level[OF partial(8) partial(10), of "os_path_basename f" "Regular c'"]
    by (simp add: dest_def os_path_join_def)
  have same: "stat (tree w1) g = stat (tree w) g" if "g \<noteq> dest P f" for g
    using partial(4) that by simp
  have "{g \<in> set (f # rest). (\<exists>c. stat (tree w) g = Some (Regular c)) \<and> stat (tree w') g = None}
           = {g \<in> set rest. (\<exists>c. stat (tree w1) g = Some (Regular c)) \<and> stat (tree w') g = None}"
    (is "?A = ?B")
  proof (intro set_eqI iffI)
    fix g assume g: "g \<in> ?A"
    then have ne: "g \<noteq> dest P f" using partial(1) by auto
    have "g \<in> set rest"
    proof (cases "g = f")
      case True
      then have "stat (tree w') f = None" using g by simp
      then show ?thesis using keep True by blast
    next
      case False
      then show ?thesis using g by simp
    qed
    then show "g \<in> ?B" using g same[OF ne] by simp
  next
    fix g assume g: "g \<in> ?B"
    then have ne: "g \<noteq> dest P f" using left by auto
    then show "g \<in> ?A" using g same[OF ne] by simp
  qed
  then show ?case using partial(11) by simp
next
  case (moved f rest n w w1 c)
  let ?S = "{g \<in> set rest. (\<exists>c. stat (tree w1) g = Some (Regular c)) \<and> stat (tree w') g = None}"
  have nodest: "\<forall>g\<in>set rest. f \<noteq> dest P g"
    using moved(4) by (auto simp: dest_def os_path_join_def)
  have fd: "f \<noteq> dest P f" using moved(1,2) by auto
  have "stat (tree w1) f = None" using moved(5) fd by simp
  then have gone: "stat (tree w') f = None"
    using batch_stays_gone[OF moved(10) moved(12), of f] nodest by simp
  have "stat (tree w1) (P @ [os_path_basename f]) = Some (Regular c)"
    using moved(5) by (simp add: dest_def os_path_join_def)
  then have kept: "stat (tree w') (dest P f) \<noteq> None"
    using batch_top_level[OF moved(10) moved(12), of "os_path_basename f" "Regular c"]
    by (simp add: dest_def os_path_join_def)
  have "{g \<in> set (f # rest). (\<exists>c. stat (tree w) g = Some (Regular c)) \<and> stat (tree w') g = None}
           = insert f ?S"
    using moved(1,2,5) gone kept by auto
  moreover have "f \<notin> ?S" using moved(5) fd by simp
  moreover have "finite ?S" by simp
  ultimately show ?case using moved(13) by simp
qed

lemma batch_settles:
  assumes "move_loop fs P n w = (n', w')" "no_dirs (tree w) fs"
  shows "faults w = [] \<longrightarrow>
         (\<forall>r c. r \<noteq> [] \<longrightarrow> stat (tree w) (P @ r) = Some (Regular c) \<longrightarrow> endswith (last r) ext \<longrightarrow>
               P @ r \<in> set fs \<or> stat (tree w) (P @ [last r]) \<noteq> None) \<longrightarrow>
         (\<forall>r c. r \<noteq> [] \<longrightarrow> stat (tree w') (P @ r) = Some (Regular c) \<longrightarrow> endswith (last r) ext \<longrightarrow>
               stat (tree w') (P @ [last r]) \<noteq> None)"
  using assms
proof (induction rule: move_loop_induct)
  case Nil
  then show ?case by auto
next
  case (skip f rest n w w1)
  show ?case
  proof (intro impI)
    assume nf: "faults w = []"
      and inv: "\<forall>r c. r \<noteq> [] \<longrightarrow> stat (tree w) (P @ r) = Some (Regular c) \<longrightarrow> endswith (last r) ext \<longrightarrow>
               P @ r \<in> set (f # rest) \<or> stat (tree w) (P @ [last r]) \<noteq> None"
    have "\<forall>r c. r \<noteq> [] \<longrightarrow> stat (tree w1) (P @ r) = Some (Regular c) \<longrightarrow> endswith (last r) ext \<longrightarrow>
               P @ r \<in> set rest \<or> stat (tree w1) (P @ [last r]) \<noteq> None"
    proof (intro allI impI)
      fix r c assume r: "r \<noteq> []" "stat (tree w1) (P @ r) = Some (Regular c)" "endswith (last r) ext"
      then have "P @ r \<in> set (f # rest) \<or> stat (tree w) (P @ [last r]) \<noteq> None"
        using inv skip(2) by auto
      moreover have "P @ r = f \<Longrightarrow> stat (tree w) (P @ [last r]) \<noteq> None"
        using skip(1) r(1) by (auto simp: dest_append)
      ultimately show "P @ r \<in> set rest \<or> stat (tree w1) (P @ [last r]) \<noteq> None"
        using skip(2) by auto
    qed
    then show "\<forall>r c. r \<noteq> [] \<longrightarrow> stat (tree w') (P @ r) = Some (Regular c) \<longrightarrow> endswith (last r) ext \<longrightarrow>
               stat (tree w') (P @ [last r]) \<noteq> None"
      using skip(9) skip(3) nf by simp
  qed
next
  case (fail f rest n w w1 e)
  show ?case
  proof (intro impI)
    assume nf: "faults w = []"
      and inv: "\<forall>r c. r \<noteq> [] \<longrightarrow> stat (tree w) (P @ r) = Some (Regular c) \<longrightarrow> endswith (last r) ext \<longrightarrow>
               P @ r \<in> set (f # rest) \<or> stat (tree w) (P @ [last r]) \<noteq> None"
    have "\<forall>r c. r \<noteq> [] \<longrightarrow> stat (tree w1) (P @ r) = Some (Regular c) \<longrightarrow> endswith (last r) ext \<longrightarrow>
               P @ r \<in> set rest \<or> stat (tree w1) (P @ [last r]) \<noteq> None"
    proof (intro allI impI)
      fix r c assume r: "r \<noteq> []" "stat (tree w1) (P @ r) = Some (Regular c)" "endswith (last r) ext"
      then have *: "P @ r \<in> set (f # rest) \<or> stat (tree w) (P @ [last r]) \<noteq> None"
        using inv fail(2) by auto
      have "stat (tree w) P = Some Directory"
      proof (cases "stat (tree w) P")
        case None
        then show ?thesis using stat_append_None[of "tree w" P r] r(2) fail(2) by simp
      next
        case (Some k)
        then show ?thesis using stat_append_Regular[of "tree w" P _ r] r(1,2) fail(2)
          by (cases k) auto
      qed
      then have "P @ r \<noteq> f" using fail(6) nf r(2) fail(2) by auto
      then show "P @ r \<in> set rest \<or> stat (tree w1) (P @ [last r]) \<noteq> None"
        using * fail(2) by auto
    qed
    then show "\<forall>r c. r \<noteq> [] \<longrightarrow> stat (tree w') (P @ r) = Some (Regular c) \<longrightarrow> endswith (last r) ext \<longrightarrow>
               stat (tree w') (P @ [last r]) \<noteq> None"
      using fail(10) fail(3) nf by simp
  qed
next
  case (partial f rest n w w1 e c c')
  then show ?case by simp
next
  case (moved f rest n w w1 c)
  show ?case
  proof (intro impI)
    assume nf: "faults w = []"
      and inv: "\<forall>r c. r \<noteq> [] \<longrightarrow> stat (tree w) (P @ r) = Some (Regular c) \<longrightarrow> endswith (last r) ext \<longrightarrow>
               P @ r \<in> set (f # rest) \<or> stat (tree w) (P @ [last r]) \<noteq> None"
    have "\<forall>r c. r \<noteq> [] \<longrightarrow> stat (tree w1) (P @ r) = Some (Regular c) \<longrightarrow> endswith (last r) ext \<longrightarrow>
               P @ r \<in> set rest \<or> stat (tree w1) (P @ [last r]) \<noteq> None"
    proof (intro allI impI)
      fix r c' assume r: "r \<noteq> []" "stat (tree w1) (P @ r) = Some (Regular c')" "endswith (last r) ext"
      show "P @ r \<in> set rest \<or> stat (tree w1) (P @ [last r]) \<noteq> None"
      proof (cases "P @ r = dest P f")
        case True
        then have "r = [os_path_basename f]" by (simp add: dest_def os_path_join_def)
        then show ?thesis using moved(5) by (simp add: dest_def os_path_join_def)
      next
        case False
        then have old: "stat (tree w) (P @ r) = Some (Regular c')" "P @ r \<noteq> f"
          using r(2) moved(5) by (auto split: if_splits)
        then have "P @ r \<in> set (f # rest) \<or> stat (tree w) (P @ [last r]) \<noteq> None"
          using inv r by blast
        moreover have "P @ [last r] \<noteq> f" using moved(4) by auto
        ultimately show ?thesis using old moved(5) by auto
      qed
    qed
    then show "\<forall>r c. r \<noteq> [] \<longrightarrow> stat (tree w') (P @ r) = Some (Regular c) \<longrightarrow> endswith (last r) ext \<longrightarrow>
               stat (tree w') (P @ [last r]) \<noteq> None"
      using moved(13) moved(7) nf by simp
  qed
qed

section \<open>The walk\<close>

lemma list_dcm_files_matching:
  "fst (list_dcm_files dirp ext w) =
     matching ext (case node_at (tree w) dirp of None \<Rightarrow> [] | Some x \<Rightarrow> os_walk_tree dirp x)"
  by (simp add: list_dcm_files_def os_walk_def matching_def)

lemma list_dcm_files_world:
  "snd (list_dcm_files dirp ext w) = w\<lparr>calls := calls w @ [Walk dirp]\<rparr>"
  by (simp add: list_dcm_files_def os_walk_def)

lemma matching_Nil [simp]: "matching ext [] = []"
  by (simp add: matching_def)

lemma matching_Cons [simp]:
  "matching ext ((root, dirs, files) # xs) =
     map (os_path_join root) (filter (\<lambda>file. endswith file ext) files) @ matching ext xs"
  by (simp add: matching_def)

lemma matching_concat: "matching ext (concat xss) = concat (map (matching ext) xss)"
  by (induction xss) (auto simp: matching_def)

lemma map_of_distinct_iff:
  "distinct (map fst es) \<Longrightarrow> map_of es m = Some y \<longleftrightarrow> (m, y) \<in> set es"
  by (auto dest: map_of_SomeD)

lemma walk_mem:
  "wf_node x \<Longrightarrow>
   p \<in> set (matching ext (os_walk_tree dirp x)) \<longleftrightarrow>
   (\<exists>r c. p = dirp @ r \<and> r \<noteq> [] \<and> node_at x r = Some (File c) \<and> endswith (last r) ext)"
proof (induction dirp x arbitrary: p rule: os_walk_tree.induct)
  case (1 dirpath c)
  have "r \<noteq> [] \<Longrightarrow> node_at (File c) r = None" for r by (cases r) auto
  then show ?case by auto
next
  case (2 dirpath es)
  then have dist: "distinct (map fst es)" and wfs: "\<And>e. e \<in> set es \<Longrightarrow> wf_node (snd e)"
    by (auto simp: list_all_iff)
  have IH: "\<And>e p. e \<in> set es \<Longrightarrow>
      p \<in> set (matching ext (os_walk_tree (dirpath @ [fst e]) (snd e))) \<longleftrightarrow>
      (\<exists>r c. p = (dirpath @ [fst e]) @ r \<and> r \<noteq> [] \<and> node_at (snd e) r = Some (File c) \<and>
             endswith (last r) ext)"
    using "2.IH" wfs by blast
  have L: "p \<in> set (matching ext (os_walk_tree dirpath (Dir es))) \<longleftrightarrow>
        (\<exists>e\<in>set es. \<not> is_Dir (snd e) \<and> endswith (fst e) ext \<and> p = dirpath @ [fst e]) \<or>
        (\<exists>e\<in>set es. p \<in> set (matching ext (os_walk_tree (dirpath @ [fst e]) (snd e))))"
    by (auto simp: matching_concat os_path_join_def)
  show ?case
  proof
    assume "p \<in> set (matching ext (os_walk_tree dirpath (Dir es)))"
    then consider
      (here) e where "e \<in> set es" "\<not> is_Dir (snd e)" "endswith (fst e) ext" "p = dirpath @ [fst e]"
      | (below) e r c where "e \<in> set es" "p = (dirpath @ [fst e]) @ r" "r \<noteq> []"
          "node_at (snd e) r = Some (File c)" "endswith (last r) ext"
      using L IH by blast
    then show "\<exists>r c. p = dirpath @ r \<and> r \<noteq> [] \<and> node_at (Dir es) r = Some (File c) \<and>
                     endswith (last r) ext"
    proof cases
      case here
      obtain c where c: "snd e = File c" using here(2) by (cases "snd e") auto
      have "map_of es (fst e) = Some (File c)"
        using here(1) c map_of_distinct_iff[OF dist, of "fst e" "snd e"]
        by (metis prod.collapse)
      then show ?thesis using here by (intro exI[of _ "[fst e]"] exI[of _ c]) simp
    next
      case below
      have "map_of es (fst e) = Some (snd e)"
        using below(1) map_of_distinct_iff[OF dist, of "fst e" "snd e"]
        by (metis prod.collapse)
      then show ?thesis using below
        by (intro exI[of _ "fst e # r"] exI[of _ c]) simp
    qed
  next
    assume "\<exists>r c. p = dirpath @ r \<and> r \<noteq> [] \<and> node_at (Dir es) r = Some (File c) \<and>
                     endswith (last r) ext"
    then obtain r c where r: "p = dirpath @ r" "r \<noteq> []" "node_at (Dir es) r = Some (File c)"
      "endswith (last r) ext" by blast
    then obtain m r' where mr: "r = m # r'" by (cases r) auto
    then obtain y where y: "map_of es m = Some y" "node_at y r' = Some (File c)"
      using r(3) by (auto split: option.splits)
    then have mem: "(m, y) \<in> set es" by (auto dest: map_of_SomeD)
    show "p \<in> set (matching ext (os_walk_tree dirpath (Dir es)))"
    proof (cases r')
      case Nil
      then have "y = File c" using y by simp
      then have "\<not> is_Dir (snd (m, y)) \<and> endswith (fst (m, y)) ext \<and> p = dirpath @ [fst (m, y)]"
        using r mr Nil by simp
      then show ?thesis using L mem by blast
    next
      case (Cons a list)
      then have "p = (dirpath @ [fst (m, y)]) @ r' \<and> r' \<noteq> [] \<and>
                 node_at (snd (m, y)) r' = Some (File c) \<and> endswith (last r') ext"
        using r mr y by simp
      then have "p \<in> set (matching ext (os_walk_tree (dirpath @ [fst (m, y)]) (snd (m, y))))"
        using IH[OF mem] by blast
      then show ?thesis using L mem by blast
    qed
  qed
qed

lemma distinct_concat_entries:
  assumes "distinct (map fst es)"
    and "\<And>e. e \<in> set es \<Longrightarrow> distinct (g e)"
    and "\<And>e p. e \<in> set es \<Longrightarrow> p \<in> set (g e) \<Longrightarrow> \<exists>r. p = dirp @ fst e # r"
  shows "distinct (concat (map g es))"
  using assms
proof (induction es)
  case Nil
  then show ?case by simp
next
  case (Cons e es)
  have "set (g e) \<inter> set (g e') = {}" if "e' \<in> set es" for e'
  proof -
    have "fst e \<noteq> fst e'" using Cons.prems(1) that by auto
    moreover have "\<And>p. p \<in> set (g e) \<Longrightarrow> \<exists>r. p = dirp @ fst e # r" using Cons.prems(3) by simp
    moreover have "\<And>p. p \<in> set (g e') \<Longrightarrow> \<exists>r. p = dirp @ fst e' # r"
      using Cons.prems(3) that by simp
    ultimately show ?thesis by fastforce
  qed
  moreover have "distinct (concat (map g es))"
    using Cons by auto
  ultimately show ?case using Cons.prems(2) by auto
qed

lemma walk_distinct:
  "wf_node x \<Longrightarrow> distinct (matching ext (os_walk_tree dirp x))"
proof (induction dirp x rule: os_walk_tree.induct)
  case (1 dirpath c)
  then show ?case by simp
next
  case (2 dirpath es)
  then have dist: "distinct (map fst es)" and wfs: "\<And>e. e \<in> set es \<Longrightarrow> wf_node (snd e)"
    by (auto simp: list_all_iff)
  let ?g = "\<lambda>e. matching ext (os_walk_tree (dirpath @ [fst e]) (snd e))"
  let ?A = "map (os_path_join dirpath)
              (filter (\<lambda>file. endswith file ext) (map fst (filter (\<lambda>e. \<not> is_Dir (snd e)) es)))"
  have below: "\<exists>r. p = dirpath @ fst e # r \<and> r \<noteq> []" if "e \<in> set es" "p \<in> set (?g e)" for e p
    using walk_mem[OF wfs[OF that(1)], of p ext "dirpath @ [fst e]"] that(2) by auto
  have 1: "distinct (concat (map ?g es))"
    using dist "2.IH" wfs below by (intro distinct_concat_entries[where dirp = dirpath]) blast+
  have 2: "distinct ?A"
    using dist by (auto simp: distinct_map distinct_map_filter os_path_join_def inj_on_def
        intro!: distinct_filter)
  have 3: "set ?A \<inter> set (concat (map ?g es)) = {}"
    using below by (fastforce simp: os_path_join_def)
  show ?case using 1 2 3 by (simp add: matching_concat comp_def)
qed

section \<open>Listing a directory, and the candidates of a walk\<close>

lemma os_listdir_world:
  "snd (os_listdir p w) = w\<lparr>faults := tl (faults w), calls := calls w @ [Listdir p]\<rparr>"
  by (cases "faults w")
     (auto simp: os_listdir_def next_fault_def split: option.splits node.splits)

lemma os_listdir_no_fault:
  "faults w = [] \<Longrightarrow>
   fst (os_listdir p w) =
     (case node_at (tree w) p of
        None \<Rightarrow> Inl FileNotFoundError
      | Some (File c) \<Rightarrow> Inl NotADirectoryError
      | Some (Dir es) \<Rightarrow> Inr (map fst es))"
  by (auto simp: os_listdir_def next_fault_def split: option.splits node.splits)

lemma stat_Directory_node: "stat t p = Some Directory \<longleftrightarrow> (\<exists>es. node_at t p = Some (Dir es))"
  by (auto simp: stat_def elim: kind_of.elims)

lemma below_needs_Directory:
  assumes "stat t (p @ r) \<noteq> None" "r \<noteq> []"
  shows "stat t p = Some Directory"
proof (cases "stat t p")
  case None
  then show ?thesis using assms stat_append_None[of t p r] by simp
next
  case (Some k)
  then show ?thesis using assms stat_append_Regular[of t p _ r] by (cases k) auto
qed

lemma wf_node_at: "wf_node t \<Longrightarrow> node_at t p = Some x \<Longrightarrow> wf_node x"
proof (induction t p rule: node_at.induct)
  case (3 es n p)
  then obtain y where y: "map_of es n = Some y" "node_at y p = Some x"
    by (auto split: option.splits)
  then have "(n, y) \<in> set es" by (auto dest: map_of_SomeD)
  then have "wf_node y" using "3.prems"(1) by (auto simp: list_all_iff)
  then show ?case using "3.IH" y by simp
qed auto

text \<open>The candidates of a walk, on a well-formed tree.\<close>

lemma candidates_iff:
  assumes "wf_node (tree w)"
  shows "f \<in> set (fst (list_dcm_files P ext w)) \<longleftrightarrow>
         (\<exists>r c. f = P @ r \<and> r \<noteq> [] \<and> stat (tree w) (P @ r) = Some (Regular c) \<and>
                endswith (last r) ext)"
proof (cases "node_at (tree w) P")
  case None
  then have "stat (tree w) (P @ r) = None" for r
    by (simp add: stat_append)
  then show ?thesis using None by (simp add: list_dcm_files_matching)
next
  case (Some x)
  have wfx: "wf_node x" using assms Some by (rule wf_node_at)
  show ?thesis
    using walk_mem[OF wfx, of f ext P] Some
    by (simp add: list_dcm_files_matching stat_append stat_Regular_node node_at_append)
qed

section \<open>The move loop: what does not depend on the log, and what is recorded\<close>

text \<open>\<^verbatim>\<open>shutil.move\<close> records its call and logs nothing, whatever it does to the tree;
  its result, and the tree and the environment it leaves, depend on the tree and the
  environment only.\<close>

lemma shutil_move_world:
  "calls (snd (shutil_move src dst w)) = calls w @ [Move src dst] \<and>
   logged (snd (shutil_move src dst w)) = logged w"
  by (simp add: shutil_move_def split: prod.splits)

lemma same_env_refl [simp]: "same_env w w"
  by (simp add: same_env_def)

lemma same_env_fields [simp]:
  "same_env (w\<lparr>calls := cs\<rparr>) v \<longleftrightarrow> same_env w v"
  "same_env w (v\<lparr>calls := cs\<rparr>) \<longleftrightarrow> same_env w v"
  "same_env (w\<lparr>logged := l\<rparr>) v \<longleftrightarrow> same_env w v"
  "same_env w (v\<lparr>logged := l\<rparr>) \<longleftrightarrow> same_env w v"
  by (simp_all add: same_env_def)

lemma shutil_move_cong:
  assumes "same_env w v"
  shows "fst (shutil_move src dst w) = fst (shutil_move src dst v) \<and>
         same_env (snd (shutil_move src dst w)) (snd (shutil_move src dst v))"
  using assms by (simp add: shutil_move_def same_env_def split: prod.splits)

lemma move_loop_cong:
  assumes "same_env w v"
  shows "fst (move_loop fs P n w) = fst (move_loop fs P n v) \<and>
         same_env (snd (move_loop fs P n w)) (snd (move_loop fs P n v))"
  using assms
proof (induction fs arbitrary: n w v)
  case Nil
  then show ?case by simp
next
  case (Cons f fs)
  let ?d = "os_path_join P (os_path_basename f)"
  have t: "tree w = tree v" using Cons.prems by (simp add: same_env_def)
  show ?case
  proof (cases "os_path_exists (tree w) ?d")
    case True
    have "same_env (logger_warning (Already_exists ?d) w) (logger_warning (Already_exists ?d) v)"
      using Cons.prems by (simp add: logger_warning_def)
    from Cons.IH[OF this] show ?thesis using True t by simp
  next
    case False
    obtain r w1 where mw: "shutil_move f ?d w = (r, w1)" by force
    define v1 where "v1 = snd (shutil_move f ?d v)"
    have mv: "shutil_move f ?d v = (r, v1)"
      using shutil_move_cong[OF Cons.prems, of f ?d] mw
      by (cases "shutil_move f ?d v") (simp add: v1_def)
    have eq: "same_env w1 v1"
      using shutil_move_cong[OF Cons.prems, of f ?d] mw mv by simp
    show ?thesis
    proof (cases r)
      case (Inl e)
      have "same_env (logger_error (Error_moving f e) w1) (logger_error (Error_moving f e) v1)"
        using eq by (simp add: logger_error_def)
      from Cons.IH[OF this] show ?thesis using False t mw mv Inl by simp
    next
      case (Inr u)
      from Cons.IH[OF eq] show ?thesis using False t mw mv Inr by simp
    qed
  qed
qed

lemma move_loop_calls:
  "\<exists>ms. calls (snd (move_loop fs P n w)) = calls w @ ms \<and>
        (\<forall>c\<in>set ms. \<exists>f\<in>set fs. c = Move f (dest P f))"
proof (induction fs arbitrary: n w)
  case Nil
  then show ?case by simp
next
  case (Cons f fs)
  let ?d = "os_path_join P (os_path_basename f)"
  show ?case
  proof (cases "os_path_exists (tree w) ?d")
    case True
    from Cons.IH[of n "logger_warning (Already_exists ?d) w"]
    show ?thesis using True by (auto simp: logger_warning_def)
  next
    case False
    obtain r w1 where mw: "shutil_move f ?d w = (r, w1)" by force
    then have c1: "calls w1 = calls w @ [Move f ?d]"
      using shutil_move_world[of f ?d w] by simp
    show ?thesis
    proof (cases r)
      case (Inl e)
      from Cons.IH[of n "logger_error (Error_moving f e) w1"] obtain ms where
        ms: "calls (snd (move_loop fs P n (logger_error (Error_moving f e) w1))) =
               calls (logger_error (Error_moving f e) w1) @ ms"
            "\<forall>c\<in>set ms. \<exists>f\<in>set fs. c = Move f (dest P f)" by blast
      have "calls (snd (move_loop (f # fs) P n w)) = calls w @ (Move f ?d # ms)"
        using False mw Inl ms(1) c1 by (simp add: logger_error_def)
      moreover have "\<forall>c\<in>set (Move f ?d # ms). \<exists>g\<in>set (f # fs). c = Move g (dest P g)"
        using ms(2) by (auto simp: dest_def)
      ultimately show ?thesis by blast
    next
      case (Inr u)
      from Cons.IH[of "n + 1" w1] obtain ms where
        ms: "calls (snd (move_loop fs P (n + 1) w1)) = calls w1 @ ms"
            "\<forall>c\<in>set ms. \<exists>f\<in>set fs. c = Move f (dest P f)" by blast
      have "calls (snd (move_loop (f # fs) P n w)) = calls w @ (Move f ?d # ms)"
        using False mw Inr ms(1) c1 by simp
      moreover have "\<forall>c\<in>set (Move f ?d # ms). \<exists>g\<in>set (f # fs). c = Move g (dest P g)"
        using ms(2) by (auto simp: dest_def)
      ultimately show ?thesis by blast
    qed
  qed
qed

lemma move_loop_all_skipped:
  "\<forall>f\<in>set fs. stat (tree w) (dest P f) \<noteq> None \<Longrightarrow>
   fst (move_loop fs P n w) = n \<and> tree (snd (move_loop fs P n w)) = tree w \<and>
   faults (snd (move_loop fs P n w)) = faults w \<and> calls (snd (move_loop fs P n w)) = calls w"
proof (induction fs arbitrary: w)
  case Nil
  then show ?case by simp
next
  case (Cons f fs)
  let ?d = "os_path_join P (os_path_basename f)"
  have ex: "os_path_exists (tree w) ?d" using Cons.prems by (simp add: exists_stat dest_def)
  have "\<forall>f\<in>set fs. stat (tree (logger_warning (Already_exists ?d) w)) (dest P f) \<noteq> None"
    using Cons.prems by (simp add: logger_warning_def)
  from Cons.IH[OF this] show ?case using ex by (simp add: logger_warning_def)
qed

lemma batch_skipped_eq:
  assumes "move_loop fs P n w = (n', w')" "no_dirs (tree w) fs"
    and "stat (tree w) (dest P q) \<noteq> None"
  shows "stat (tree w') q = stat (tree w) q"
proof (cases "stat (tree w) q")
  case (Some k)
  then show ?thesis using batch_skipped[OF assms(1,2), of q k] assms(3) by simp
next
  case None
  have "\<forall>f\<in>set fs. q \<noteq> dest P f"
  proof (intro ballI notI)
    fix f assume "q = dest P f"
    then have "dest P q = q" by (simp add: dest_def os_path_join_def os_path_basename_def)
    then show False using None assms(3) by simp
  qed
  then show ?thesis using batch_stays_gone[OF assms(1,2), of q] None by simp
qed

lemma batch_same_or_gone:
  assumes "move_loop fs P n w = (n', w')" "no_dirs (tree w) fs"
  shows "stat (tree w) q = Some k \<longrightarrow> stat (tree w') q = Some k \<or> stat (tree w') q = None"
  using assms
proof (induction rule: move_loop_induct)
  case (partial f rest n w w1 e c c')
  show ?case
  proof
    assume a: "stat (tree w) q = Some k"
    then have "q \<noteq> dest P f" using partial(1) by auto
    then have "stat (tree w1) q = Some k" using partial(4) a by simp
    then show "stat (tree w') q = Some k \<or> stat (tree w') q = None"
      using partial(11) by simp
  qed
next
  case (moved f rest n w w1 c)
  show ?case
  proof
    assume a: "stat (tree w) q = Some k"
    then have nd: "q \<noteq> dest P f" using moved(1) by auto
    show "stat (tree w') q = Some k \<or> stat (tree w') q = None"
    proof (cases "q = f")
      case True
      then have "stat (tree w1) q = None" using moved(5) nd by simp
      moreover have "\<forall>g\<in>set rest. q \<noteq> dest P g"
        using True moved(4) by (auto simp: dest_def os_path_join_def)
      ultimately show ?thesis using batch_stays_gone[OF moved(10) moved(12), of q] by simp
    next
      case False
      then have "stat (tree w1) q = Some k" using moved(5) nd a by simp
      then show ?thesis using moved(13) by simp
    qed
  qed
qed auto


lemma move_dcm_files_append:
  "move_dcm_files pre P w0 = (n, w) \<Longrightarrow>
   move_dcm_files (pre @ fs) P w0 = move_loop fs P n w"
  by (simp add: move_dcm_files_def move_loop_append)

lemma no_dirs_append: "no_dirs t (xs @ ys) \<longleftrightarrow> no_dirs t xs \<and> no_dirs t ys"
  by (auto simp: no_dirs_def)

lemma no_dirs_Cons: "no_dirs t (x # xs) \<longleftrightarrow> stat t x \<noteq> Some Directory \<and> no_dirs t xs"
  by (auto simp: no_dirs_def)

lemma no_dirs_after:
  assumes "move_loop fs P n w = (n', w')" "no_dirs (tree w) fs" "no_dirs (tree w) gs"
  shows "no_dirs (tree w') gs"
  using batch_dirs[OF assms(1,2)] assms(3) by (simp add: no_dirs_def)

lemma not_top_level:
  assumes "stat t f \<noteq> None" "stat t (dest P f) = None"
  shows "f \<noteq> dest P g"
proof
  assume "f = dest P g"
  then have "dest P f = f" by (simp add: dest_def os_path_join_def os_path_basename_def)
  then show False using assms by simp
qed

text \<open>A candidate that is moved stays moved until the end of the batch.\<close>

lemma moved_candidate:
  assumes nd: "no_dirs (tree w) (pre @ f # post)"
    and pre: "move_loop pre P n w = (n1, w1)"
    and dst: "\<not> os_path_exists (tree w1) (dest P f)"
    and mv: "shutil_move f (dest P f) w1 = (Inr u, w2)"
    and post: "move_loop post P n2 w2 = (n', w')"
  shows "\<exists>c. stat (tree w1) f = Some (Regular c) \<and> stat (tree w') (dest P f) = Some (Regular c) \<and>
             stat (tree w') f = None \<and> (stat (tree w) f \<noteq> None \<longrightarrow> stat (tree w) f = Some (Regular c))"
proof -
  have d: "dest P f = P @ [os_path_basename f]" by (simp add: dest_def os_path_join_def)
  have nd_pre: "no_dirs (tree w) pre" and nd_rest: "no_dirs (tree w) (f # post)"
    using nd by (simp_all add: no_dirs_append)
  have nd1: "no_dirs (tree w1) (f # post)" using no_dirs_after[OF pre nd_pre nd_rest] .
  have none: "stat (tree w1) (dest P f) = None" using dst by (simp add: exists_stat)
  have fnd: "stat (tree w1) f \<noteq> Some Directory" using nd1 by (simp add: no_dirs_Cons)
  from shutil_move_effect[OF none[unfolded d] fnd mv[unfolded d], folded d]
  obtain c where c: "stat (tree w1) f = Some (Regular c)"
      "stat (tree w2) = (stat (tree w1))(f := None, dest P f \<mapsto> Regular c)"
    by auto
  have fd: "f \<noteq> dest P f" using c(1) none by auto
  have nd2: "no_dirs (tree w2) post"
    using nd1 c(2) by (auto simp: no_dirs_def)
  have "stat (tree w2) f = None" using c(2) fd by simp
  moreover have "\<forall>g\<in>set post. f \<noteq> dest P g"
    using not_top_level[of "tree w1" f P] c(1) none by auto
  ultimately have gone: "stat (tree w') f = None"
    using batch_stays_gone[OF post nd2, of f] by simp
  have "stat (tree w2) (P @ [os_path_basename f]) = Some (Regular c)"
    using c(2) d by simp
  then have kept: "stat (tree w') (dest P f) = Some (Regular c)"
    using batch_top_level[OF post nd2, of "os_path_basename f" "Regular c"] d by simp
  have "stat (tree w) f = Some (Regular c)" if "stat (tree w) f \<noteq> None"
  proof -
    from that obtain k where k: "stat (tree w) f = Some k" by auto
    then show ?thesis using batch_same_or_gone[OF pre nd_pre, of f k] c(1) by auto
  qed
  then show ?thesis using c(1) gone kept by blast
qed

lemma warned_append [simp]: "warned d (l @ l') = warned d l + warned d l'"
  by (simp add: warned_def)

lemma batch_warnings_existing:
  assumes "move_loop fs P n w = (n', w')" "no_dirs (tree w) fs"
  shows "stat (tree w) (P @ [b]) \<noteq> None \<longrightarrow>
         warned (P @ [b]) (logged w') =
           warned (P @ [b]) (logged w) + length (filter (\<lambda>g. os_path_basename g = b) fs)"
  using assms
proof (induction rule: move_loop_induct)
  case Nil
  then show ?case by simp
next
  case (skip f rest n w w1)
  have "dest P f = P @ [b] \<longleftrightarrow> os_path_basename f = b" by (rule dest_eq_snoc)
  then show ?case using skip by (auto simp: warned_def)
next
  case (fail f rest n w w1 e)
  show ?case
  proof
    assume a: "stat (tree w) (P @ [b]) \<noteq> None"
    then have "os_path_basename f \<noteq> b" using fail(1) by (auto simp: dest_def os_path_join_def)
    then show "warned (P @ [b]) (logged w') =
           warned (P @ [b]) (logged w) + length (filter (\<lambda>g. os_path_basename g = b) (f # rest))"
      using fail a by (simp add: warned_def)
  qed
next
  case (partial f rest n w w1 e c c')
  show ?case
  proof
    assume a: "stat (tree w) (P @ [b]) \<noteq> None"
    then have nb: "os_path_basename f \<noteq> b"
      using partial(1) by (auto simp: dest_def os_path_join_def)
    have "stat (tree w1) (P @ [b]) \<noteq> None" using partial(4) a by simp
    then show "warned (P @ [b]) (logged w') =
           warned (P @ [b]) (logged w) + length (filter (\<lambda>g. os_path_basename g = b) (f # rest))"
      using partial(7,11) nb by (simp add: warned_def)
  qed
next
  case (moved f rest n w w1 c)
  show ?case
  proof
    assume a: "stat (tree w) (P @ [b]) \<noteq> None"
    then have nb: "os_path_basename f \<noteq> b" using moved(1) by (auto simp: dest_def os_path_join_def)
    have "P @ [b] \<noteq> f" using moved(4) by auto
    then have "stat (tree w1) (P @ [b]) \<noteq> None" using moved(5) a by simp
    then show "warned (P @ [b]) (logged w') =
           warned (P @ [b]) (logged w) + length (filter (\<lambda>g. os_path_basename g = b) (f # rest))"
      using moved nb by simp
  qed
qed

lemma batch_warnings_other:
  assumes "move_loop fs P n w = (n', w')" "no_dirs (tree w) fs"
  shows "(\<forall>f\<in>set fs. os_path_basename f \<noteq> b) \<longrightarrow>
         warned (P @ [b]) (logged w') = warned (P @ [b]) (logged w)"
  using assms
proof (induction rule: move_loop_induct)
  case (skip f rest n w w1)
  have "dest P f = P @ [b] \<longleftrightarrow> os_path_basename f = b" by (rule dest_eq_snoc)
  then show ?case using skip by (auto simp: warned_def)
qed (auto simp: warned_def)

section \<open>Two runs on trees that differ by one file\<close>





section \<open>Listing the root\<close>

lemma os_listdir_Inr:
  "fst (os_listdir p w) = Inr names \<Longrightarrow>
   \<exists>es. node_at (tree w) p = Some (Dir es) \<and> names = map fst es"
  by (cases "faults w")
     (auto simp: os_listdir_def next_fault_def split: option.splits node.splits)

lemma os_listdir_injected:
  "faults w = Some e # fs \<Longrightarrow> fst (os_listdir p w) = Inl e"
  by (simp add: os_listdir_def next_fault_def)

lemma os_listdir_not_dir:
  "\<not> os_path_isdir (tree w) p \<Longrightarrow> \<exists>e. fst (os_listdir p w) = Inl e"
  by (cases "faults w")
     (auto simp: os_listdir_def next_fault_def os_path_isdir_def split: option.splits node.splits)

lemma os_listdir_cong:
  "tree v = tree w \<Longrightarrow> faults v = faults w \<Longrightarrow> fst (os_listdir p v) = fst (os_listdir p w)"
  by (cases "faults w")
     (auto simp: os_listdir_def next_fault_def split: option.splits node.splits)

lemma isdir_child:
  assumes "node_at t p = Some (Dir es)"
  shows "os_path_isdir t (os_path_join p d) \<longleftrightarrow> (\<exists>x. map_of es d = Some x \<and> is_Dir x)"
  using assms
  by (auto simp: os_path_isdir_def os_path_join_def node_at_append split: option.splits)

lemma list_patient_directories_fst:
  "fst (list_patient_directories disk_path srt w) =
     (case fst (os_listdir disk_path w) of
        Inl e \<Rightarrow> []
      | Inr names \<Rightarrow>
          (let patient_dirs = filter (\<lambda>d. os_path_isdir (tree w) (os_path_join disk_path d)) names
           in if srt then sort patient_dirs else patient_dirs))"
proof -
  have "tree (snd (os_listdir disk_path w)) = tree w" by (simp add: os_listdir_world)
  then show ?thesis
    by (cases "os_listdir disk_path w")
       (auto simp: list_patient_directories_def Let_def split: sum.splits)
qed

lemma list_patient_directories_snd:
  "tree (snd (list_patient_directories disk_path srt w)) = tree w \<and>
   faults (snd (list_patient_directories disk_path srt w)) = tl (faults w)"
proof -
  have "snd (os_listdir disk_path w) = w\<lparr>faults := tl (faults w), calls := calls w @ [Listdir disk_path]\<rparr>"
    by (rule os_listdir_world)
  then show ?thesis
    by (cases "os_listdir disk_path w")
       (auto simp: list_patient_directories_def Let_def logger_error_def logger_info_def
          split: sum.splits)
qed

lemma main_no_patients:
  assumes "fst (os_listdir disk_path w) = Inl e"
  shows "fst (main disk_path ext w) = Inr 0 \<and> tree (snd (main disk_path ext w)) = tree w \<and>
         (ERROR, Error_listing e) \<in> set (logged (snd (main disk_path ext w)))"
proof -
  let ?w0 = "logger_info (Moving_from disk_path ext) w"
  have "fst (os_listdir disk_path ?w0) = Inl e"
    using assms os_listdir_cong[of ?w0 w disk_path] by (simp add: logger_info_def)
  then obtain w1 where l: "os_listdir disk_path ?w0 = (Inl e, w1)"
    by (cases "os_listdir disk_path ?w0") auto
  then have "w1 = ?w0\<lparr>faults := tl (faults ?w0), calls := calls ?w0 @ [Listdir disk_path]\<rparr>"
    using os_listdir_world[of disk_path ?w0] by simp
  then show ?thesis using l
    by (simp add: main_def list_patient_directories_def logger_info_def logger_error_def)
qed

section \<open>The steps of processing a patient\<close>

lemma process_patient_directory_unfold:
  "process_patient_directory disk_path patient_dir ext w =
     (let P = os_path_join disk_path patient_dir;
          cands = fst (list_dcm_files P ext w);
          w1 = w\<lparr>calls := calls w @ [Walk P]\<rparr>
      in if cands = [] then (Inr 0, logger_info (No_files_found patient_dir) w1)
         else
           (let r = move_loop cands P 0 (logger_info (Found_before patient_dir (length cands)) w1);
                l = os_listdir P (snd r)
            in case fst l of
                 Inl e \<Rightarrow> (Inl e, snd l)
               | Inr names \<Rightarrow>
                   (Inr (fst r),
                    logger_info (Were_moved patient_dir (fst r))
                      (logger_info
                         (Found_after patient_dir
                            (length (filter (\<lambda>name. endswith name ext) names)))
                         (snd l)))))"
proof -
  obtain cands w1 where l: "list_dcm_files (os_path_join disk_path patient_dir) ext w = (cands, w1)"
    by force
  then have w1: "w1 = w\<lparr>calls := calls w @ [Walk (os_path_join disk_path patient_dir)]\<rparr>"
    using list_dcm_files_world[of "os_path_join disk_path patient_dir" ext w] by simp
  show ?thesis
    using l w1
    by (simp add: process_patient_directory_def Let_def move_dcm_files_def
          split: prod.splits sum.splits)
qed

section \<open>Processing a patient, and the whole run\<close>

lemma candidates_nonempty_dir:
  assumes "wf_node (tree w)" "fst (list_dcm_files P ext w) \<noteq> []"
  shows "stat (tree w) P = Some Directory"
proof -
  from assms(2) obtain f where "f \<in> set (fst (list_dcm_files P ext w))"
    by (cases "fst (list_dcm_files P ext w)") auto
  then obtain r c where "r \<noteq> []" "stat (tree w) (P @ r) = Some (Regular c)"
    using candidates_iff[OF assms(1)] by blast
  then show ?thesis using below_needs_Directory[of "tree w" P r] by simp
qed

lemma os_listdir_dir:
  assumes "faults w = []" "stat (tree w) p = Some Directory"
  shows "\<exists>names. fst (os_listdir p w) = Inr names"
  using assms by (auto simp: os_listdir_no_fault stat_Directory_node)

lemma process_settled:
  assumes wf: "wf_node (tree w)" and quiet: "faults w = []"
    and st: "settled (tree w) (os_path_join disk_path patient_dir) ext"
  shows "fst (process_patient_directory disk_path patient_dir ext w) = Inr 0 \<and>
         tree (snd (process_patient_directory disk_path patient_dir ext w)) = tree w \<and>
         faults (snd (process_patient_directory disk_path patient_dir ext w)) = []"
proof -
  let ?P = "os_path_join disk_path patient_dir"
  let ?cands = "fst (list_dcm_files ?P ext w)"
  let ?w1 = "w\<lparr>calls := calls w @ [Walk ?P]\<rparr>"
  let ?w2 = "logger_info (Found_before patient_dir (length ?cands)) ?w1"
  let ?r = "move_loop ?cands ?P 0 ?w2"
  let ?l = "os_listdir ?P (snd ?r)"
  show ?thesis
  proof (cases "?cands = []")
    case True
    then show ?thesis using quiet
      by (simp add: process_patient_directory_unfold Let_def logger_info_def)
  next
    case False
    have w2: "tree ?w2 = tree w" "faults ?w2 = []"
      using quiet by (simp_all add: logger_info_def)
    have "\<forall>f\<in>set ?cands. stat (tree ?w2) (dest ?P f) \<noteq> None"
    proof
      fix f assume "f \<in> set ?cands"
      then obtain r c where r: "f = ?P @ r" "r \<noteq> []" "stat (tree w) (?P @ r) = Some (Regular c)"
        "endswith (last r) ext"
        using candidates_iff[OF wf] by blast
      then have "stat (tree w) (?P @ [last r]) \<noteq> None" using st by (auto simp: settled_def)
      then show "stat (tree ?w2) (dest ?P f) \<noteq> None"
        using r(1,2) w2 by (simp add: dest_append)
    qed
    from move_loop_all_skipped[OF this, of 0]
    have r: "fst ?r = 0" "tree (snd ?r) = tree w" "faults (snd ?r) = []"
      using w2 by simp_all
    have "stat (tree (snd ?r)) ?P = Some Directory"
      using candidates_nonempty_dir[OF wf False] r(2) by simp
    then obtain names where names: "fst ?l = Inr names"
      using os_listdir_dir[OF r(3)] by blast
    have l: "tree (snd ?l) = tree w" "faults (snd ?l) = []"
      using r by (simp_all add: os_listdir_world)
    show ?thesis
      using False names l r(1)
      by (simp add: process_patient_directory_unfold Let_def logger_info_def)
  qed
qed

lemma process_settles:
  assumes wf: "wf_node (tree w)" and quiet: "faults w = []"
  shows "\<exists>m. fst (process_patient_directory disk_path patient_dir ext w) = Inr m \<and>
         wf_node (tree (snd (process_patient_directory disk_path patient_dir ext w))) \<and>
         faults (snd (process_patient_directory disk_path patient_dir ext w)) = [] \<and>
         settled (tree (snd (process_patient_directory disk_path patient_dir ext w)))
           (os_path_join disk_path patient_dir) ext \<and>
         (\<forall>q. \<not> prefix (os_path_join disk_path patient_dir) q \<longrightarrow>
              stat (tree (snd (process_patient_directory disk_path patient_dir ext w))) q =
                stat (tree w) q) \<and>
         (\<forall>q. stat (tree (snd (process_patient_directory disk_path patient_dir ext w))) q =
                Some Directory \<longleftrightarrow> stat (tree w) q = Some Directory)"
proof -
  let ?P = "os_path_join disk_path patient_dir"
  let ?cands = "fst (list_dcm_files ?P ext w)"
  let ?w1 = "w\<lparr>calls := calls w @ [Walk ?P]\<rparr>"
  let ?w2 = "logger_info (Found_before patient_dir (length ?cands)) ?w1"
  let ?r = "move_loop ?cands ?P 0 ?w2"
  let ?l = "os_listdir ?P (snd ?r)"
  let ?res = "process_patient_directory disk_path patient_dir ext w"
  have inv0: "\<forall>r c. r \<noteq> [] \<longrightarrow> stat (tree w) (?P @ r) = Some (Regular c) \<longrightarrow>
      endswith (last r) ext \<longrightarrow> ?P @ r \<in> set ?cands \<or> stat (tree w) (?P @ [last r]) \<noteq> None"
    using candidates_iff[OF wf, of _ ?P ext] by blast
  show ?thesis
  proof (cases "?cands = []")
    case True
    then have "settled (tree w) ?P ext" using inv0 by (auto simp: settled_def)
    then show ?thesis using True wf quiet
      by (simp add: process_patient_directory_unfold Let_def logger_info_def)
  next
    case False
    have w2: "tree ?w2 = tree w" "faults ?w2 = []"
      using quiet by (simp_all add: logger_info_def)
    obtain m w3 where run: "move_loop ?cands ?P 0 ?w2 = (m, w3)" by force
    have cand: "\<exists>r c. f = ?P @ r \<and> r \<noteq> [] \<and> stat (tree w) f = Some (Regular c)"
      if "f \<in> set ?cands" for f
      using candidates_iff[OF wf, of f ?P ext] that by auto
    have nd: "no_dirs (tree ?w2) ?cands"
      using cand w2 by (fastforce simp: no_dirs_def)
    have pre: "\<forall>f\<in>set ?cands. prefix ?P f" using cand by fastforce
    have s3: "settled (tree w3) ?P ext"
      using batch_settles[OF run nd, of ext] w2 inv0 by (simp add: settled_def)
    have fr: "\<forall>q. \<not> prefix ?P q \<longrightarrow> stat (tree w3) q = stat (tree w) q"
      using batch_frame[OF run nd] pre w2 by simp
    have dr: "\<forall>q. stat (tree w3) q = Some Directory \<longleftrightarrow> stat (tree w) q = Some Directory"
      using batch_dirs[OF run nd] w2 by simp
    have wf3: "wf_node (tree w3)" using batch_wf[OF run nd] wf w2 by simp
    have q3: "faults w3 = []" using batch_faults[OF run nd] w2 by simp
    have "stat (tree w3) ?P = Some Directory"
      using candidates_nonempty_dir[OF wf False] dr by simp
    then obtain names where names: "fst (os_listdir ?P w3) = Inr names"
      using os_listdir_dir[OF q3] by blast
    have l: "tree (snd (os_listdir ?P w3)) = tree w3" "faults (snd (os_listdir ?P w3)) = []"
      using q3 by (simp_all add: os_listdir_world)
    have "fst ?res = Inr m \<and> tree (snd ?res) = tree w3 \<and> faults (snd ?res) = []"
      using False names l run
      by (simp add: process_patient_directory_unfold Let_def logger_info_def)
    then show ?thesis using s3 fr dr wf3 by auto
  qed
qed

lemma settled_frame:
  assumes "settled t (disk_path @ [d]) ext" "d \<noteq> d'"
    and "\<forall>q. \<not> prefix (disk_path @ [d']) q \<longrightarrow> stat t' q = stat t q"
  shows "settled t' (disk_path @ [d]) ext"
proof -
  have "\<not> prefix (disk_path @ [d']) ((disk_path @ [d]) @ r)" for r
    using assms(2) by (auto simp: prefix_def)
  then have "stat t' ((disk_path @ [d]) @ r) = stat t ((disk_path @ [d]) @ r)" for r
    using assms(3) by blast
  then show ?thesis using assms(1) unfolding settled_def by metis
qed

lemma main_loop_settled:
  assumes "wf_node (tree w)" "faults w = []"
    and "\<forall>d\<in>set ps. settled (tree w) (os_path_join disk_path d) ext"
  shows "fst (main_loop ps disk_path ext tot w) = Inr tot \<and>
         tree (snd (main_loop ps disk_path ext tot w)) = tree w \<and>
         faults (snd (main_loop ps disk_path ext tot w)) = []"
  using assms
proof (induction ps arbitrary: w tot)
  case Nil
  then show ?case by simp
next
  case (Cons d ps)
  obtain r w1 where p: "process_patient_directory disk_path d ext w = (r, w1)" by force
  have st: "settled (tree w) (os_path_join disk_path d) ext" using Cons.prems(3) by simp
  from process_settled[OF Cons.prems(1,2) st] p
  have r: "r = Inr 0" "tree w1 = tree w" "faults w1 = []" by simp_all
  have "wf_node (tree w1)" "\<forall>d\<in>set ps. settled (tree w1) (os_path_join disk_path d) ext"
    using Cons.prems r by simp_all
  from Cons.IH[OF this(1) r(3) this(2), of tot] show ?case
    using p r by simp
qed

lemma main_loop_settles:
  assumes "wf_node (tree w)" "faults w = []"
  shows "\<exists>tot'. fst (main_loop ps disk_path ext tot w) = Inr tot' \<and>
         wf_node (tree (snd (main_loop ps disk_path ext tot w))) \<and>
         faults (snd (main_loop ps disk_path ext tot w)) = [] \<and>
         (\<forall>d. d \<in> set ps \<or> settled (tree w) (os_path_join disk_path d) ext \<longrightarrow>
              settled (tree (snd (main_loop ps disk_path ext tot w))) (os_path_join disk_path d) ext) \<and>
         (\<forall>q. stat (tree (snd (main_loop ps disk_path ext tot w))) q = Some Directory \<longleftrightarrow>
              stat (tree w) q = Some Directory)"
  using assms
proof (induction ps arbitrary: w tot)
  case Nil
  then show ?case by simp
next
  case (Cons d' ps)
  obtain r w1 where p: "process_patient_directory disk_path d' ext w = (r, w1)" by force
  from process_settles[OF Cons.prems, of disk_path d' ext] p
  obtain m where m: "r = Inr m" "wf_node (tree w1)" "faults w1 = []"
    "settled (tree w1) (os_path_join disk_path d') ext"
    "\<forall>q. \<not> prefix (os_path_join disk_path d') q \<longrightarrow> stat (tree w1) q = stat (tree w) q"
    "\<forall>q. stat (tree w1) q = Some Directory \<longleftrightarrow> stat (tree w) q = Some Directory"
    by auto
  let ?fin = "snd (main_loop ps disk_path ext (tot + m) w1)"
  from Cons.IH[OF m(2,3), of "tot + m"] obtain tot' where
    ih: "fst (main_loop ps disk_path ext (tot + m) w1) = Inr tot'"
      "wf_node (tree ?fin)" "faults ?fin = []"
      "\<forall>d. d \<in> set ps \<or> settled (tree w1) (os_path_join disk_path d) ext \<longrightarrow>
           settled (tree ?fin) (os_path_join disk_path d) ext"
      "\<forall>q. stat (tree ?fin) q = Some Directory \<longleftrightarrow> stat (tree w1) q = Some Directory"
    by blast
  have step: "settled (tree w1) (os_path_join disk_path d) ext"
    if "d = d' \<or> settled (tree w) (os_path_join disk_path d) ext" for d
  proof (cases "d = d'")
    case True
    then show ?thesis using m(4) by simp
  next
    case False
    then show ?thesis
      using that settled_frame[of "tree w" disk_path d ext d' "tree w1"] m(5)
      by (simp add: os_path_join_def)
  qed
  have eq: "main_loop (d' # ps) disk_path ext tot w = main_loop ps disk_path ext (tot + m) w1"
    using p m(1) by simp
  show ?case
    unfolding eq using ih m(6) step by auto
qed

lemma main_unfold:
  "main disk_path ext w =
     (let w0 = logger_info (Moving_from disk_path ext) w;
          ps = fst (list_patient_directories disk_path True w0);
          r = main_loop ps disk_path ext 0 (snd (list_patient_directories disk_path True w0))
      in case fst r of
           Inl e \<Rightarrow> (Inl e, snd r)
         | Inr tt \<Rightarrow>
             (Inr tt, logger_info (Total_moved tt) (logger_info Execution_time (snd r))))"
  by (simp add: main_def Let_def split: prod.splits sum.splits)

lemma patient_listed:
  assumes "faults w = []" "os_path_isdir (tree w) (os_path_join disk_path d)"
  shows "d \<in> set (fst (list_patient_directories disk_path True w))"
proof -
  have "stat (tree w) (disk_path @ [d]) \<noteq> None"
    using assms(2) by (simp add: isdir_stat os_path_join_def)
  then have "stat (tree w) disk_path = Some Directory"
    using below_needs_Directory[of "tree w" disk_path "[d]"] by simp
  then obtain es where es: "node_at (tree w) disk_path = Some (Dir es)"
    by (auto simp: stat_Directory_node)
  then have l: "fst (os_listdir disk_path w) = Inr (map fst es)"
    using assms(1) by (simp add: os_listdir_no_fault)
  have "d \<in> set (map fst es)"
    using isdir_child[OF es, of d] assms(2) by (force dest: map_of_SomeD)
  then show ?thesis using l assms(2) by (simp add: list_patient_directories_fst)
qed

lemma patient_is_dir:
  assumes "d \<in> set (fst (list_patient_directories disk_path True w))"
  shows "os_path_isdir (tree w) (os_path_join disk_path d)"
  using assms by (auto simp: list_patient_directories_fst split: sum.splits)

lemma recount_error_leaves:
  assumes "fst (list_dcm_files (os_path_join disk_path patient_dir) ext w) \<noteq> []"
    and "fst (os_listdir (os_path_join disk_path patient_dir)
           (snd (move_loop (fst (list_dcm_files (os_path_join disk_path patient_dir) ext w))
              (os_path_join disk_path patient_dir) 0
              (logger_info (Found_before patient_dir
                 (length (fst (list_dcm_files (os_path_join disk_path patient_dir) ext w))))
                 (w\<lparr>calls := calls w @ [Walk (os_path_join disk_path patient_dir)]\<rparr>))))) = Inl e"
  shows "fst (process_patient_directory disk_path patient_dir ext w) = Inl e"
  using assms by (simp add: process_patient_directory_unfold Let_def)

lemma main_loop_error_leaves:
  "fst (process_patient_directory disk_path patient_dir ext w) = Inl e \<Longrightarrow>
   fst (main_loop (patient_dir # rest) disk_path ext n w) = Inl e"
  by (cases "process_patient_directory disk_path patient_dir ext w") simp

lemma recount_counts_names:
  assumes "fst (process_patient_directory disk_path patient_dir ext w) = Inr m"
    and "fst (list_dcm_files (os_path_join disk_path patient_dir) ext w) \<noteq> []"
    and "node_at (tree (snd (process_patient_directory disk_path patient_dir ext w)))
           (os_path_join disk_path patient_dir) = Some (Dir es)"
  shows "(INFO, Found_after patient_dir (length (filter (\<lambda>e. endswith (fst e) ext) es)))
           \<in> set (logged (snd (process_patient_directory disk_path patient_dir ext w)))"
proof -
  let ?P = "os_path_join disk_path patient_dir"
  let ?cands = "fst (list_dcm_files ?P ext w)"
  let ?w2 = "logger_info (Found_before patient_dir (length ?cands)) (w\<lparr>calls := calls w @ [Walk ?P]\<rparr>)"
  let ?r = "move_loop ?cands ?P 0 ?w2"
  let ?l = "os_listdir ?P (snd ?r)"
  from assms(1,2) obtain names where names: "fst ?l = Inr names"
    by (cases "fst ?l") (auto simp: process_patient_directory_unfold Let_def)
  have t: "tree (snd (process_patient_directory disk_path patient_dir ext w)) = tree (snd ?r)"
    using assms(2) names
    by (simp add: process_patient_directory_unfold Let_def logger_info_def os_listdir_world)
  from os_listdir_Inr[OF names] assms(3) t have "names = map fst es" by auto
  then have "length (filter (\<lambda>name. endswith name ext) names) =
             length (filter (\<lambda>e. endswith (fst e) ext) es)"
    by (simp add: filter_map comp_def)
  then show ?thesis
    using assms(2) names
    by (simp add: process_patient_directory_unfold Let_def logger_info_def)
qed

section \<open>The claims\<close>

lemma endswith_iff: "endswith s suf \<longleftrightarrow> (\<exists>pre. s = pre @ suf)"
proof
  assume "endswith s suf"
  then have "s = take (length s - length suf) s @ suf"
    by (metis append_take_drop_id endswith_def)
  then show "\<exists>pre. s = pre @ suf" ..
next
  assume "\<exists>pre. s = pre @ suf"
  then show "endswith s suf" by (auto simp: endswith_def)
qed

text \<open>
  C5. On every tree (entry names unique in each directory), for every directory path
  and every extension string, \<^verbatim>\<open>list_dcm_files\<close> returns, each once, exactly the paths
  below the directory, at any depth, that hold a regular file whose name ends with the
  extension: the name is some prefix followed by the extension, compared character by
  character. So \<^verbatim>\<open>foo.dcm\<close> and \<^verbatim>\<open>foo.old.dcm\<close> match \<^verbatim>\<open>.dcm\<close>, and \<^verbatim>\<open>x.dcm\<close> does not
  match \<^verbatim>\<open>.DCM\<close>.
\<close>

theorem list_dcm_files_suffix_match:
  "(wf_node (tree w) \<longrightarrow>
      set (fst (list_dcm_files patient_path file_extension w)) =
        {patient_path @ r | r. r \<noteq> [] \<and>
            (\<exists>c. node_at (tree w) (patient_path @ r) = Some (File c)) \<and>
            endswith (last r) file_extension} \<and>
      distinct (fst (list_dcm_files patient_path file_extension w))) \<and>
   (endswith file file_extension \<longleftrightarrow> (\<exists>pre. file = pre @ file_extension)) \<and>
   endswith ''foo.dcm'' ''.dcm'' \<and> endswith ''foo.old.dcm'' ''.dcm'' \<and>
   \<not> endswith ''x.dcm'' ''.DCM''"
proof (intro impI conjI)
  assume wf: "wf_node (tree w)"
  show "set (fst (list_dcm_files patient_path file_extension w)) =
        {patient_path @ r | r. r \<noteq> [] \<and>
            (\<exists>c. node_at (tree w) (patient_path @ r) = Some (File c)) \<and>
            endswith (last r) file_extension}"
    using candidates_iff[OF wf, of _ patient_path file_extension]
    by (auto simp: stat_Regular_node)
  show "distinct (fst (list_dcm_files patient_path file_extension w))"
  proof (cases "node_at (tree w) patient_path")
    case None
    then show ?thesis by (simp add: list_dcm_files_matching)
  next
    case (Some x)
    then have "wf_node x" using wf wf_node_at by blast
    then show ?thesis using Some by (simp add: list_dcm_files_matching walk_distinct)
  qed
next
  show "endswith file file_extension \<longleftrightarrow> (\<exists>pre. file = pre @ file_extension)"
    by (rule endswith_iff)
qed (simp_all add: endswith_def)

theorem list_dcm_files_suffix_match_witness:
  "wf_node (tree (quiet suffix_tree)) \<and>
   fst (list_dcm_files [''P''] ''.dcm'' (quiet suffix_tree)) =
     [[''P'', ''foo.dcm''], [''P'', ''s'', ''foo.old.dcm'']] \<and>
   fst (list_dcm_files [''P''] ''.DCM'' (quiet suffix_tree)) = [[''P'', ''x.DCM'']] \<and>
   set (fst (list_dcm_files [''P''] ''.dcm'' (quiet suffix_tree))) =
     {[''P''] @ r | r. r \<noteq> [] \<and>
         (\<exists>c. node_at (tree (quiet suffix_tree)) ([''P''] @ r) = Some (File c)) \<and>
         endswith (last r) ''.dcm''} \<and>
   distinct (fst (list_dcm_files [''P''] ''.dcm'' (quiet suffix_tree)))"
proof -
  have wf: "wf_node (tree (quiet suffix_tree))"
    by (simp add: quiet_def suffix_tree_def)
  have 1: "fst (list_dcm_files [''P''] ''.dcm'' (quiet suffix_tree)) =
     [[''P'', ''foo.dcm''], [''P'', ''s'', ''foo.old.dcm'']]"
    by code_simp
  have 2: "fst (list_dcm_files [''P''] ''.DCM'' (quiet suffix_tree)) = [[''P'', ''x.DCM'']]"
    by code_simp
  show ?thesis
    using list_dcm_files_suffix_match[of "quiet suffix_tree" "[''P'']" "''.dcm''"] wf 1 2
    by simp
qed

text \<open>
  C2. When the destination of a candidate (the target directory joined with the
  candidate's basename) exists at the time the candidate is processed,
  \<^verbatim>\<open>move_dcm_files\<close> goes on with the remaining candidates from a world that differs
  only by one more log entry, the warning that names the destination: the counter, the
  tree, the failure script and the recorded calls are the same, so no move was
  attempted. When no candidate is a directory, the candidate and its destination are
  still as they were at the end of the batch. A candidate that sits directly in the
  target directory is its own destination, so it is skipped in this way.
\<close>

theorem move_dcm_files_skips_existing:
  assumes "move_dcm_files pre patient_path w0 = (n, w)"
    and "os_path_exists (tree w) (os_path_join patient_path (os_path_basename dcm_file))"
  shows "move_dcm_files (pre @ dcm_file # rest) patient_path w0 =
           move_loop rest patient_path n
             (w\<lparr>logged := logged w @
                [(WARNING, Already_exists (os_path_join patient_path (os_path_basename dcm_file)))]\<rparr>) \<and>
         (no_dirs (tree w) (dcm_file # rest) \<longrightarrow>
            stat (tree (snd (move_dcm_files (pre @ dcm_file # rest) patient_path w0))) dcm_file =
              stat (tree w) dcm_file \<and>
            stat (tree (snd (move_dcm_files (pre @ dcm_file # rest) patient_path w0)))
                (os_path_join patient_path (os_path_basename dcm_file)) =
              stat (tree w) (os_path_join patient_path (os_path_basename dcm_file))) \<and>
         (dcm_file = os_path_join patient_path b \<longrightarrow>
            os_path_join patient_path (os_path_basename dcm_file) = dcm_file)"
proof (intro conjI impI)
  let ?d = "os_path_join patient_path (os_path_basename dcm_file)"
  have run: "move_dcm_files (pre @ dcm_file # rest) patient_path w0 =
               move_loop (dcm_file # rest) patient_path n w"
    using assms(1) by (rule move_dcm_files_append)
  show "move_dcm_files (pre @ dcm_file # rest) patient_path w0 =
           move_loop rest patient_path n (w\<lparr>logged := logged w @ [(WARNING, Already_exists ?d)]\<rparr>)"
    using assms(2) by (simp add: run logger_warning_def)
  show "os_path_join patient_path (os_path_basename dcm_file) = dcm_file"
    if "dcm_file = os_path_join patient_path b"
    using that by (simp add: os_path_join_def os_path_basename_def)
  assume nd: "no_dirs (tree w) (dcm_file # rest)"
  obtain n' w' where fin: "move_loop (dcm_file # rest) patient_path n w = (n', w')" by force
  have ex: "stat (tree w) (dest patient_path dcm_file) \<noteq> None"
    using assms(2) by (simp add: exists_stat dest_def)
  show "stat (tree (snd (move_dcm_files (pre @ dcm_file # rest) patient_path w0))) dcm_file =
              stat (tree w) dcm_file"
    using batch_skipped_eq[OF fin nd ex] unfolding run fin by simp
  obtain k where k: "stat (tree w) ?d = Some k" using ex by (auto simp: dest_def)
  have "?d = patient_path @ [os_path_basename dcm_file]" by (simp add: os_path_join_def)
  then show "stat (tree (snd (move_dcm_files (pre @ dcm_file # rest) patient_path w0))) ?d =
              stat (tree w) ?d"
    using batch_top_level[OF fin nd, of "os_path_basename dcm_file" k] k unfolding run fin by simp
qed

theorem move_dcm_files_skips_existing_witness:
  "move_dcm_files [] [''P1''] (quiet example_tree) = (0, quiet example_tree) \<and>
   os_path_exists (tree (quiet example_tree))
     (os_path_join [''P1''] (os_path_basename [''P1'', ''b.dcm''])) \<and>
   no_dirs (tree (quiet example_tree)) [[''P1'', ''b.dcm''], [''P1'', ''sub'', ''deep'', ''a.dcm'']] \<and>
   [''P1'', ''b.dcm''] = os_path_join [''P1''] ''b.dcm'' \<and>
   move_dcm_files ([] @ [''P1'', ''b.dcm''] # [[''P1'', ''sub'', ''deep'', ''a.dcm'']]) [''P1'']
       (quiet example_tree) =
     move_loop [[''P1'', ''sub'', ''deep'', ''a.dcm'']] [''P1''] 0
       ((quiet example_tree)\<lparr>logged := logged (quiet example_tree) @
          [(WARNING, Already_exists (os_path_join [''P1''] (os_path_basename [''P1'', ''b.dcm''])))]\<rparr>) \<and>
   stat (tree (snd (move_dcm_files ([] @ [''P1'', ''b.dcm''] # [[''P1'', ''sub'', ''deep'', ''a.dcm'']])
       [''P1''] (quiet example_tree)))) [''P1'', ''b.dcm''] =
     stat (tree (quiet example_tree)) [''P1'', ''b.dcm''] \<and>
   stat (tree (quiet example_tree)) [''P1'', ''b.dcm''] = Some (Regular ''B'') \<and>
   os_path_join [''P1''] (os_path_basename [''P1'', ''b.dcm'']) = [''P1'', ''b.dcm'']"
proof -
  have h1: "move_dcm_files [] [''P1''] (quiet example_tree) = (0, quiet example_tree)"
    by (simp add: move_dcm_files_def)
  have h2: "os_path_exists (tree (quiet example_tree))
     (os_path_join [''P1''] (os_path_basename [''P1'', ''b.dcm'']))"
    by (simp add: quiet_def example_tree_def os_path_exists_def os_path_join_def os_path_basename_def)
  have h3: "no_dirs (tree (quiet example_tree))
       [[''P1'', ''b.dcm''], [''P1'', ''sub'', ''deep'', ''a.dcm'']]"
    by (simp add: no_dirs_def stat_def quiet_def example_tree_def)
  have h4: "stat (tree (quiet example_tree)) [''P1'', ''b.dcm''] = Some (Regular ''B'')"
    by (simp add: stat_def quiet_def example_tree_def)
  have h5: "[''P1'', ''b.dcm''] = os_path_join [''P1''] ''b.dcm''"
    by (simp add: os_path_join_def)
  note inst = move_dcm_files_skips_existing[OF h1 h2,
        of "[[''P1'', ''sub'', ''deep'', ''a.dcm'']]" "''b.dcm''"]
  show ?thesis
    using inst h1 h2 h3 h4 h5 by blast
qed




text \<open>
  C4. For a candidate list without directories, the count \<^verbatim>\<open>move_dcm_files\<close> returns
  is the number of candidates that were files before the batch and are no longer at
  their path after it: a skipped candidate and a candidate whose move failed are still
  there and are not counted. And for every candidate whose destination does not exist
  when it is processed and whose \<^verbatim>\<open>shutil.move\<close> succeeds, after the whole batch
  nothing exists at its original path, and its destination holds a regular file with
  the content the candidate had when it was processed (which is the content it had
  before the batch, when it existed then).
\<close>

theorem move_dcm_files_count_and_effect:
  assumes "no_dirs (tree w) patient_dcm_files"
    and "move_dcm_files patient_dcm_files patient_path w = (moved_files_count, w')"
  shows "moved_files_count =
           card {f \<in> set patient_dcm_files.
                   (\<exists>c. node_at (tree w) f = Some (File c)) \<and> \<not> os_path_exists (tree w') f} \<and>
         (\<forall>pre dcm_file post n1 w1 u w2.
            patient_dcm_files = pre @ dcm_file # post \<and>
            move_dcm_files pre patient_path w = (n1, w1) \<and>
            \<not> os_path_exists (tree w1) (os_path_join patient_path (os_path_basename dcm_file)) \<and>
            shutil_move dcm_file (os_path_join patient_path (os_path_basename dcm_file)) w1 =
              (Inr u, w2) \<longrightarrow>
            \<not> os_path_exists (tree w') dcm_file \<and>
            (\<exists>c. node_at (tree w1) dcm_file = Some (File c) \<and>
                 node_at (tree w')
                   (os_path_join patient_path (os_path_basename dcm_file)) = Some (File c) \<and>
                 (os_path_exists (tree w) dcm_file \<longrightarrow> node_at (tree w) dcm_file = Some (File c))))"
proof (rule conjI, goal_cases)
  case 1
  have run: "move_loop patient_dcm_files patient_path 0 w = (moved_files_count, w')"
    using assms(2) by (simp add: move_dcm_files_def)
  show ?case
    using batch_count[OF run assms(1)] by (simp add: stat_Regular_node exists_stat)
next
  case 2
  show ?case
  proof (intro allI impI)
  fix pre dcm_file post n1 w1 u w2
  assume a: "patient_dcm_files = pre @ dcm_file # post \<and>
            move_dcm_files pre patient_path w = (n1, w1) \<and>
            \<not> os_path_exists (tree w1) (os_path_join patient_path (os_path_basename dcm_file)) \<and>
            shutil_move dcm_file (os_path_join patient_path (os_path_basename dcm_file)) w1 =
              (Inr u, w2)"
  let ?d = "os_path_join patient_path (os_path_basename dcm_file)"
  have pre: "move_loop pre patient_path 0 w = (n1, w1)"
    using a by (simp add: move_dcm_files_def)
  have "move_dcm_files (pre @ dcm_file # post) patient_path w =
          move_loop (dcm_file # post) patient_path n1 w1"
    using a by (intro move_dcm_files_append) simp
  then have post: "move_loop post patient_path (n1 + 1) w2 = (moved_files_count, w')"
    using a assms(2) by simp
  have nd: "no_dirs (tree w) (pre @ dcm_file # post)" using a assms(1) by simp
  from moved_candidate[OF nd pre _ _ post, of u] a
  obtain c where "stat (tree w1) dcm_file = Some (Regular c)"
    "stat (tree w') ?d = Some (Regular c)" "stat (tree w') dcm_file = None"
    "stat (tree w) dcm_file \<noteq> None \<longrightarrow> stat (tree w) dcm_file = Some (Regular c)"
    by (auto simp: dest_def)
  then show "\<not> os_path_exists (tree w') dcm_file \<and>
            (\<exists>c. node_at (tree w1) dcm_file = Some (File c) \<and>
                 node_at (tree w') ?d = Some (File c) \<and>
                 (os_path_exists (tree w) dcm_file \<longrightarrow> node_at (tree w) dcm_file = Some (File c)))"
    by (auto simp: exists_stat stat_Regular_node)
  qed
qed


theorem move_dcm_files_count_and_effect_witness:
  "no_dirs (tree (quiet example_tree))
     [[''P1'', ''sub'', ''deep'', ''a.dcm''], [''P1'', ''b.dcm'']] \<and>
   move_dcm_files [[''P1'', ''sub'', ''deep'', ''a.dcm''], [''P1'', ''b.dcm'']] [''P1'']
       (quiet example_tree) =
     (1, snd (move_dcm_files [[''P1'', ''sub'', ''deep'', ''a.dcm''], [''P1'', ''b.dcm'']] [''P1'']
                (quiet example_tree))) \<and>
   (1::nat) = card {f \<in> set [[''P1'', ''sub'', ''deep'', ''a.dcm''], [''P1'', ''b.dcm'']].
       (\<exists>c. node_at (tree (quiet example_tree)) f = Some (File c)) \<and>
       \<not> os_path_exists
           (tree (snd (move_dcm_files [[''P1'', ''sub'', ''deep'', ''a.dcm''], [''P1'', ''b.dcm'']]
                         [''P1''] (quiet example_tree)))) f} \<and>
   \<not> os_path_exists
       (tree (snd (move_dcm_files [[''P1'', ''sub'', ''deep'', ''a.dcm''], [''P1'', ''b.dcm'']]
                     [''P1''] (quiet example_tree)))) [''P1'', ''sub'', ''deep'', ''a.dcm''] \<and>
   node_at (tree (snd (move_dcm_files [[''P1'', ''sub'', ''deep'', ''a.dcm''], [''P1'', ''b.dcm'']]
                         [''P1''] (quiet example_tree))))
       (os_path_join [''P1''] (os_path_basename [''P1'', ''sub'', ''deep'', ''a.dcm''])) =
     Some (File ''A'')"
proof -
  let ?a = "[''P1'', ''sub'', ''deep'', ''a.dcm'']"
  let ?fs = "[?a, [''P1'', ''b.dcm'']]"
  let ?W = "quiet example_tree"
  let ?d = "os_path_join [''P1''] (os_path_basename ?a)"
  have h1: "no_dirs (tree ?W) ?fs"
    by (simp add: no_dirs_def stat_def quiet_def example_tree_def)
  have "fst (move_dcm_files ?fs [''P1''] ?W) = 1" by code_simp
  then have h2: "move_dcm_files ?fs [''P1''] ?W = (1, snd (move_dcm_files ?fs [''P1''] ?W))"
    by (metis prod.collapse)
  have h3: "?fs = [] @ ?a # [[''P1'', ''b.dcm'']]" by simp
  have h4: "move_dcm_files [] [''P1''] ?W = (0, ?W)" by (simp add: move_dcm_files_def)
  have h5: "\<not> os_path_exists (tree ?W) ?d"
    by (simp add: quiet_def example_tree_def os_path_exists_def os_path_join_def os_path_basename_def)
  have "fst (shutil_move ?a ?d ?W) = Inr ()" by code_simp
  then have h6: "shutil_move ?a ?d ?W = (Inr (), snd (shutil_move ?a ?d ?W))"
    by (metis prod.collapse)
  have h7: "node_at (tree ?W) ?a = Some (File ''A'')"
    by (simp add: quiet_def example_tree_def)
  note inst = move_dcm_files_count_and_effect[OF h1 h2]
  from inst have c1: "(1::nat) = card {f \<in> set ?fs.
       (\<exists>c. node_at (tree ?W) f = Some (File c)) \<and>
       \<not> os_path_exists (tree (snd (move_dcm_files ?fs [''P1''] ?W))) f}"
    by (rule conjunct1)
  from inst h3 h4 h5 h6 have c2:
    "\<not> os_path_exists (tree (snd (move_dcm_files ?fs [''P1''] ?W))) ?a \<and>
     (\<exists>c. node_at (tree ?W) ?a = Some (File c) \<and>
          node_at (tree (snd (move_dcm_files ?fs [''P1''] ?W))) ?d = Some (File c) \<and>
          (os_path_exists (tree ?W) ?a \<longrightarrow> node_at (tree ?W) ?a = Some (File c)))"
    by blast
  show ?thesis using h1 h2 c1 c2 h7 by auto
qed

text \<open>
  C10. Take a list of distinct candidates, all of them regular files, a target that is
  a directory, and an environment that injects no failure. Let \<^verbatim>\<open>first\<close> be the first
  candidate of the list with its basename, and let the destination for that basename
  not exist before the batch. Then after the batch the destination holds the content
  of \<^verbatim>\<open>first\<close> and \<^verbatim>\<open>first\<close> is gone from its path; every later candidate with the
  same basename is still at its path with its content; and the log has one more
  "already exists" warning for that destination per later candidate with the basename:
  the existence check is made when each candidate is processed.
\<close>

theorem basename_collision:
  assumes fs: "patient_dcm_files = pre @ first # post"
    and dist: "distinct patient_dcm_files"
    and files: "\<forall>f\<in>set patient_dcm_files. \<exists>c. node_at (tree w) f = Some (File c)"
    and first: "node_at (tree w) first = Some (File c)"
    and earlier: "\<forall>f\<in>set pre. os_path_basename f \<noteq> os_path_basename first"
    and dst: "\<not> os_path_exists (tree w) (os_path_join patient_path (os_path_basename first))"
    and target: "os_path_isdir (tree w) patient_path"
    and quiet: "faults w = []"
    and run: "move_dcm_files patient_dcm_files patient_path w = (moved_files_count, w')"
  shows "node_at (tree w') (os_path_join patient_path (os_path_basename first)) = Some (File c) \<and>
         \<not> os_path_exists (tree w') first \<and>
         (\<forall>g\<in>set post. os_path_basename g = os_path_basename first \<longrightarrow>
            node_at (tree w') g = node_at (tree w) g) \<and>
         warned (os_path_join patient_path (os_path_basename first)) (logged w') =
           warned (os_path_join patient_path (os_path_basename first)) (logged w) +
           length (filter (\<lambda>g. os_path_basename g = os_path_basename first) post)"
proof -
  let ?P = patient_path
  let ?b = "os_path_basename first"
  let ?d = "dest ?P first"
  have d: "?d = ?P @ [?b]" "os_path_join ?P ?b = ?P @ [?b]"
    by (simp_all add: dest_def os_path_join_def)
  have "stat (tree w) f \<noteq> Some Directory" if "f \<in> set patient_dcm_files" for f
  proof -
    from files that obtain cf where "node_at (tree w) f = Some (File cf)" by blast
    then show ?thesis by (simp add: stat_def)
  qed
  then have nd: "no_dirs (tree w) (pre @ first # post)"
    using fs by (simp add: no_dirs_def)
  then have nd_pre: "no_dirs (tree w) pre" and nd_rest: "no_dirs (tree w) (first # post)"
    by (simp_all add: no_dirs_append)
  obtain n1 w1 where pre: "move_loop pre ?P 0 w = (n1, w1)" by force
  obtain n2 w2 where one: "move_loop [first] ?P n1 w1 = (n2, w2)" by force
  have all: "move_loop (pre @ first # post) ?P 0 w = (moved_files_count, w')"
    using run fs by (simp add: move_dcm_files_def)
  then have "move_loop (first # post) ?P n1 w1 = (moved_files_count, w')"
    using pre by (simp only: move_loop_append prod.case)
  then have post: "move_loop post ?P n2 w2 = (moved_files_count, w')"
    using one by (simp only: move_loop_Cons[of first post ?P n1 w1] prod.case)
  have nd1: "no_dirs (tree w1) (first # post)" using no_dirs_after[OF pre nd_pre nd_rest] .
  have notin: "first \<notin> set pre" using dist fs by auto
  have f0: "stat (tree w) first = Some (Regular c)" using first by (simp add: stat_Regular_node)
  have f1: "stat (tree w1) first = Some (Regular c)"
    using batch_others[OF pre nd_pre, of first "Regular c"] notin f0 by simp
  have d0: "stat (tree w) (?P @ [?b]) = None" using dst by (simp add: exists_stat d)
  have "\<forall>f\<in>set pre. ?P @ [?b] \<noteq> dest ?P f"
    using earlier by (auto simp: dest_def os_path_join_def)
  then have d1: "stat (tree w1) ?d = None"
    using batch_stays_gone[OF pre nd_pre, of "?P @ [?b]"] d0 d by simp
  have P1: "stat (tree w1) ?P = Some Directory"
    using batch_dirs[OF pre nd_pre, of ?P] target by (simp add: isdir_stat)
  have q1: "faults w1 = []" using batch_faults[OF pre nd_pre] quiet by simp
  have n2: "n2 = n1 + 1" using move_one_fail_cause[OF one q1 f1 P1 d1] .
  have fnd: "stat (tree w1) first \<noteq> Some Directory" using f1 by simp
  from one fnd have w2: "stat (tree w2) = (stat (tree w1))(first := None, ?d \<mapsto> Regular c) \<and>
      logged w2 = logged w1"
  proof (cases rule: move_one_cases)
    case skip
    then show ?thesis using n2 by simp
  next
    case (fail e)
    then show ?thesis using n2 by simp
  next
    case (partial e c' c'')
    then show ?thesis using n2 by simp
  next
    case (moved c')
    then show ?thesis using f1 by simp
  qed
  have fd: "first \<noteq> ?d" using f1 d1 by auto
  have nd2: "no_dirs (tree w2) post" using nd1 w2 by (auto simp: no_dirs_def)
  have "stat (tree w2) (?P @ [?b]) = Some (Regular c)" using w2 d by simp
  then have kept: "stat (tree w') (?P @ [?b]) = Some (Regular c)"
    using batch_top_level[OF post nd2, of ?b "Regular c"] by simp
  have "stat (tree w2) first = None" using w2 fd by simp
  moreover have "\<forall>g\<in>set post. first \<noteq> dest ?P g"
    using not_top_level[of "tree w1" first ?P] f1 d1 by auto
  ultimately have gone: "stat (tree w') first = None"
    using batch_stays_gone[OF post nd2, of first] by simp
  have later: "node_at (tree w') g = node_at (tree w) g"
    if g: "g \<in> set post" "os_path_basename g = ?b" for g
  proof -
    obtain cg where cg: "stat (tree w) g = Some (Regular cg)"
      using files fs g(1) by (auto simp: stat_Regular_node)
    have "g \<notin> set pre" "g \<noteq> first" using dist fs g(1) by auto
    then have g1: "stat (tree w1) g = Some (Regular cg)"
      using batch_others[OF pre nd_pre, of g "Regular cg"] cg by simp
    then have "g \<noteq> ?d" using d1 by auto
    then have g2: "stat (tree w2) g = Some (Regular cg)"
      using w2 g1 \<open>g \<noteq> first\<close> by simp
    have "dest ?P g = ?P @ [?b]" using g(2) by (simp add: dest_def os_path_join_def)
    then have "stat (tree w2) (dest ?P g) \<noteq> None" using w2 d by simp
    then have "stat (tree w') g = Some (Regular cg)"
      using batch_skipped_eq[OF post nd2, of g] g2 by simp
    then show ?thesis using cg by (simp add: stat_Regular_node)
  qed
  have wa: "warned (?P @ [?b]) (logged w1) = warned (?P @ [?b]) (logged w)"
    using batch_warnings_other[OF pre nd_pre, of ?b] earlier by simp
  have wb: "warned (?P @ [?b]) (logged w') =
          warned (?P @ [?b]) (logged w2) + length (filter (\<lambda>g. os_path_basename g = ?b) post)"
    using batch_warnings_existing[OF post nd2, of ?b] \<open>stat (tree w2) (?P @ [?b]) = Some (Regular c)\<close>
    by simp
  show ?thesis
    using kept gone later wa wb w2
    by (simp add: d stat_Regular_node[symmetric] exists_stat)
qed


theorem basename_collision_witness:
  "distinct [[''P'', ''s3'', ''y.dcm''], [''P'', ''s1'', ''x.dcm''], [''P'', ''s2'', ''x.dcm'']] \<and>
   node_at (tree (quiet collision_tree)) [''P'', ''s1'', ''x.dcm''] = Some (File ''first'') \<and>
   node_at (tree (quiet collision_tree)) [''P'', ''s2'', ''x.dcm''] = Some (File ''second'') \<and>
   os_path_basename [''P'', ''s3'', ''y.dcm''] \<noteq> os_path_basename [''P'', ''s1'', ''x.dcm''] \<and>
   os_path_basename [''P'', ''s2'', ''x.dcm''] = os_path_basename [''P'', ''s1'', ''x.dcm''] \<and>
   \<not> os_path_exists (tree (quiet collision_tree))
       (os_path_join [''P''] (os_path_basename [''P'', ''s1'', ''x.dcm''])) \<and>
   os_path_isdir (tree (quiet collision_tree)) [''P''] \<and>
   faults (quiet collision_tree) = [] \<and>
   node_at (tree (snd (move_dcm_files
         [[''P'', ''s3'', ''y.dcm''], [''P'', ''s1'', ''x.dcm''], [''P'', ''s2'', ''x.dcm'']] [''P'']
         (quiet collision_tree))))
       (os_path_join [''P''] (os_path_basename [''P'', ''s1'', ''x.dcm''])) = Some (File ''first'') \<and>
   \<not> os_path_exists (tree (snd (move_dcm_files
         [[''P'', ''s3'', ''y.dcm''], [''P'', ''s1'', ''x.dcm''], [''P'', ''s2'', ''x.dcm'']] [''P'']
         (quiet collision_tree)))) [''P'', ''s1'', ''x.dcm''] \<and>
   node_at (tree (snd (move_dcm_files
         [[''P'', ''s3'', ''y.dcm''], [''P'', ''s1'', ''x.dcm''], [''P'', ''s2'', ''x.dcm'']] [''P'']
         (quiet collision_tree)))) [''P'', ''s2'', ''x.dcm''] = Some (File ''second'') \<and>
   warned (os_path_join [''P''] (os_path_basename [''P'', ''s1'', ''x.dcm'']))
       (logged (snd (move_dcm_files
         [[''P'', ''s3'', ''y.dcm''], [''P'', ''s1'', ''x.dcm''], [''P'', ''s2'', ''x.dcm'']] [''P'']
         (quiet collision_tree)))) = 1"
proof -
  let ?y = "[''P'', ''s3'', ''y.dcm'']"
  let ?x1 = "[''P'', ''s1'', ''x.dcm'']"
  let ?x2 = "[''P'', ''s2'', ''x.dcm'']"
  let ?fs = "[?y, ?x1, ?x2]"
  let ?W = "quiet collision_tree"
  let ?d = "os_path_join [''P''] (os_path_basename ?x1)"
  have h1: "?fs = [?y] @ ?x1 # [?x2]" by simp
  have h2: "distinct ?fs" by simp
  have h3: "\<forall>f\<in>set ?fs. \<exists>c. node_at (tree ?W) f = Some (File c)"
    by (simp add: quiet_def collision_tree_def)
  have h4: "node_at (tree ?W) ?x1 = Some (File ''first'')"
    by (simp add: quiet_def collision_tree_def)
  have h5: "\<forall>f\<in>set [?y]. os_path_basename f \<noteq> os_path_basename ?x1"
    by (simp add: os_path_basename_def)
  have h6: "\<not> os_path_exists (tree ?W) ?d"
    by (simp add: quiet_def collision_tree_def os_path_exists_def os_path_join_def
        os_path_basename_def)
  have h7: "os_path_isdir (tree ?W) [''P'']"
    by (simp add: quiet_def collision_tree_def os_path_isdir_def)
  have h8: "faults ?W = []" by (simp add: quiet_def)
  have h9: "move_dcm_files ?fs [''P''] ?W =
              (fst (move_dcm_files ?fs [''P''] ?W), snd (move_dcm_files ?fs [''P''] ?W))"
    by simp
  have g1: "node_at (tree ?W) ?x2 = Some (File ''second'')"
    by (simp add: quiet_def collision_tree_def)
  have g2: "os_path_basename ?x2 = os_path_basename ?x1" by (simp add: os_path_basename_def)
  have g3: "warned ?d (logged ?W) = 0" by (simp add: quiet_def warned_def)
  note inst = basename_collision[OF h1 h2 h3 h4 h5 h6 h7 h8 h9]
  from inst g1 g2 have c3: "node_at (tree (snd (move_dcm_files ?fs [''P''] ?W))) ?x2 =
      Some (File ''second'')" by simp
  from inst g2 g3 have c4: "warned ?d (logged (snd (move_dcm_files ?fs [''P''] ?W))) = 1"
    by simp
  show ?thesis
    using inst h2 h4 h5 h6 h7 h8 g1 g2 c3 c4 by simp
qed

text \<open>
  C7. When \<^verbatim>\<open>os.listdir\<close> of the root fails with an error (it does whenever the root
  is not a directory of the tree, and whenever the environment injects a failure),
  \<^verbatim>\<open>list_patient_directories\<close> returns the empty list and logs the error, with its
  cause, at error severity, and \<^verbatim>\<open>main\<close> completes with a total of zero and the tree
  as it was. When the listing succeeds, \<^verbatim>\<open>list_patient_directories\<close> with sorting
  returns the listed names that are directories, sorted; these are all the child
  directories of the root; on a tree with unique entry names it is the sorted list of
  that set, whatever the order of the listing; and every other successful call on the
  same tree returns the same list. Strings are ordered lexicographically by their
  characters' codes.
\<close>

theorem list_patient_directories_result:
  "(fst (os_listdir disk_path w) = Inl e \<longrightarrow>
      list_patient_directories disk_path srt w =
        ([], logger_error (Error_listing e) (snd (os_listdir disk_path w))) \<and>
      fst (main disk_path file_extension w) = Inr 0 \<and>
      tree (snd (main disk_path file_extension w)) = tree w \<and>
      (ERROR, Error_listing e) \<in> set (logged (snd (main disk_path file_extension w)))) \<and>
   (fst (os_listdir disk_path w) = Inr names \<longrightarrow>
      fst (list_patient_directories disk_path True w) =
        sort (filter (\<lambda>d. os_path_isdir (tree w) (os_path_join disk_path d)) names) \<and>
      sorted (fst (list_patient_directories disk_path True w)) \<and>
      set (fst (list_patient_directories disk_path True w)) =
        {d. os_path_isdir (tree w) (os_path_join disk_path d)} \<and>
      (wf_node (tree w) \<longrightarrow>
         fst (list_patient_directories disk_path True w) =
           sorted_list_of_set {d. os_path_isdir (tree w) (os_path_join disk_path d)}) \<and>
      (\<forall>v names'. tree v = tree w \<and> fst (os_listdir disk_path v) = Inr names' \<longrightarrow>
         fst (list_patient_directories disk_path True v) =
           fst (list_patient_directories disk_path True w))) \<and>
   (\<not> os_path_isdir (tree w) disk_path \<longrightarrow> (\<exists>e. fst (os_listdir disk_path w) = Inl e)) \<and>
   (\<forall>e' fs. faults w = Some e' # fs \<longrightarrow> fst (os_listdir disk_path w) = Inl e')"
proof (intro conjI)
  show "fst (os_listdir disk_path w) = Inl e \<longrightarrow>
      list_patient_directories disk_path srt w =
        ([], logger_error (Error_listing e) (snd (os_listdir disk_path w))) \<and>
      fst (main disk_path file_extension w) = Inr 0 \<and>
      tree (snd (main disk_path file_extension w)) = tree w \<and>
      (ERROR, Error_listing e) \<in> set (logged (snd (main disk_path file_extension w)))"
  proof
    assume a: "fst (os_listdir disk_path w) = Inl e"
    then have "list_patient_directories disk_path srt w =
        ([], logger_error (Error_listing e) (snd (os_listdir disk_path w)))"
      by (cases "os_listdir disk_path w") (simp add: list_patient_directories_def)
    then show "list_patient_directories disk_path srt w =
        ([], logger_error (Error_listing e) (snd (os_listdir disk_path w))) \<and>
      fst (main disk_path file_extension w) = Inr 0 \<and>
      tree (snd (main disk_path file_extension w)) = tree w \<and>
      (ERROR, Error_listing e) \<in> set (logged (snd (main disk_path file_extension w)))"
      using main_no_patients[OF a, of file_extension] by simp
  qed
next
  show "fst (os_listdir disk_path w) = Inr names \<longrightarrow>
      fst (list_patient_directories disk_path True w) =
        sort (filter (\<lambda>d. os_path_isdir (tree w) (os_path_join disk_path d)) names) \<and>
      sorted (fst (list_patient_directories disk_path True w)) \<and>
      set (fst (list_patient_directories disk_path True w)) =
        {d. os_path_isdir (tree w) (os_path_join disk_path d)} \<and>
      (wf_node (tree w) \<longrightarrow>
         fst (list_patient_directories disk_path True w) =
           sorted_list_of_set {d. os_path_isdir (tree w) (os_path_join disk_path d)}) \<and>
      (\<forall>v names'. tree v = tree w \<and> fst (os_listdir disk_path v) = Inr names' \<longrightarrow>
         fst (list_patient_directories disk_path True v) =
           fst (list_patient_directories disk_path True w))"
  proof
    assume a: "fst (os_listdir disk_path w) = Inr names"
    let ?p = "\<lambda>d. os_path_isdir (tree w) (os_path_join disk_path d)"
    from os_listdir_Inr[OF a] obtain es where
      es: "node_at (tree w) disk_path = Some (Dir es)" "names = map fst es" by blast
    have 1: "fst (list_patient_directories disk_path True w) = sort (filter ?p names)"
      using a by (simp add: list_patient_directories_fst)
    have "?p d \<Longrightarrow> d \<in> set names" for d
      using isdir_child[OF es(1), of d] es(2) by (force dest: map_of_SomeD)
    then have 3: "set (sort (filter ?p names)) = {d. ?p d}" by auto
    have 4: "sort (filter ?p names) = sorted_list_of_set {d. ?p d}" if "wf_node (tree w)"
    proof -
      have "wf_node (Dir es)" using that es(1) by (rule wf_node_at)
      then have "distinct (filter ?p names)" using es(2) by simp
      then have "sort (filter ?p names) = sorted_list_of_set (set (filter ?p names))"
        using sorted_list_of_set_sort_remdups[of "filter ?p names"] by (simp add: distinct_remdups_id)
      then show ?thesis using 3 by simp
    qed
    have 5: "fst (list_patient_directories disk_path True v) = sort (filter ?p names)"
      if "tree v = tree w \<and> fst (os_listdir disk_path v) = Inr names'" for v names'
    proof -
      from that os_listdir_Inr[of disk_path v names'] es have "names' = names" by auto
      then show ?thesis using that by (simp add: list_patient_directories_fst)
    qed
    show "fst (list_patient_directories disk_path True w) =
        sort (filter (\<lambda>d. os_path_isdir (tree w) (os_path_join disk_path d)) names) \<and>
      sorted (fst (list_patient_directories disk_path True w)) \<and>
      set (fst (list_patient_directories disk_path True w)) =
        {d. os_path_isdir (tree w) (os_path_join disk_path d)} \<and>
      (wf_node (tree w) \<longrightarrow>
         fst (list_patient_directories disk_path True w) =
           sorted_list_of_set {d. os_path_isdir (tree w) (os_path_join disk_path d)}) \<and>
      (\<forall>v names'. tree v = tree w \<and> fst (os_listdir disk_path v) = Inr names' \<longrightarrow>
         fst (list_patient_directories disk_path True v) =
           fst (list_patient_directories disk_path True w))"
      unfolding 1 using 3 4 5 by (auto simp del: set_sort)
  qed
next
  show "\<not> os_path_isdir (tree w) disk_path \<longrightarrow> (\<exists>e. fst (os_listdir disk_path w) = Inl e)"
    using os_listdir_not_dir by blast
next
  show "\<forall>e' fs. faults w = Some e' # fs \<longrightarrow> fst (os_listdir disk_path w) = Inl e'"
    using os_listdir_injected by blast
qed


theorem list_patient_directories_result_witness:
  "fst (os_listdir [''nope''] (quiet example_tree)) = Inl FileNotFoundError \<and>
   list_patient_directories [''nope''] True (quiet example_tree) =
     ([], logger_error (Error_listing FileNotFoundError)
            (snd (os_listdir [''nope''] (quiet example_tree)))) \<and>
   fst (main [''nope''] ''.dcm'' (quiet example_tree)) = Inr 0 \<and>
   fst (os_listdir [] (quiet unsorted_tree)) = Inr [''P2'', ''x.txt'', ''P10'', ''P1''] \<and>
   fst (list_patient_directories [] True (quiet unsorted_tree)) = [''P1'', ''P10'', ''P2''] \<and>
   sorted (fst (list_patient_directories [] True (quiet unsorted_tree))) \<and>
   wf_node (tree (quiet unsorted_tree)) \<and>
   fst (list_patient_directories [] True (quiet unsorted_tree)) =
     sorted_list_of_set {d. os_path_isdir (tree (quiet unsorted_tree)) (os_path_join [] d)}"
proof -
  have h1: "fst (os_listdir [''nope''] (quiet example_tree)) = Inl FileNotFoundError"
    by code_simp
  have h2: "fst (os_listdir [] (quiet unsorted_tree)) = Inr [''P2'', ''x.txt'', ''P10'', ''P1'']"
    by code_simp
  have h3: "wf_node (tree (quiet unsorted_tree))"
    by (simp add: quiet_def unsorted_tree_def)
  have h4: "fst (list_patient_directories [] True (quiet unsorted_tree)) = [''P1'', ''P10'', ''P2'']"
    by code_simp
  note fail = list_patient_directories_result[where disk_path = "[''nope'']"
      and w = "quiet example_tree" and e = FileNotFoundError and srt = True
      and file_extension = "''.dcm''"]
  note ok = list_patient_directories_result[where disk_path = "[]"
      and w = "quiet unsorted_tree" and names = "[''P2'', ''x.txt'', ''P10'', ''P1'']"]
  from fail h1 have c1: "list_patient_directories [''nope''] True (quiet example_tree) =
     ([], logger_error (Error_listing FileNotFoundError)
            (snd (os_listdir [''nope''] (quiet example_tree)))) \<and>
     fst (main [''nope''] ''.dcm'' (quiet example_tree)) = Inr 0"
    by blast
  from ok h2 h3 have c2: "sorted (fst (list_patient_directories [] True (quiet unsorted_tree))) \<and>
     fst (list_patient_directories [] True (quiet unsorted_tree)) =
     sorted_list_of_set {d. os_path_isdir (tree (quiet unsorted_tree)) (os_path_join [] d)}"
    by blast
  show ?thesis using h1 h2 h3 h4 c1 c2 by blast
qed

text \<open>
  C1. For every patient directory and every world, the enumerations and moves that
  \<^verbatim>\<open>process_patient_directory\<close> asks for are, in this order: one walk of the patient
  directory; then only moves, each of a path of the candidate list that
  \<^verbatim>\<open>list_dcm_files\<close> returns on the world as it was before the call, to that path's
  destination; then at most the listing of the recount. No walk follows a move. The
  tree the call leaves is the tree \<^verbatim>\<open>move_dcm_files\<close> leaves when it is given exactly
  that candidate list on the initial world.
\<close>

theorem candidates_fixed_before_moves:
  "\<exists>moves after.
     calls (snd (process_patient_directory disk_path patient_dir file_extension w)) =
       calls w @ [Walk (os_path_join disk_path patient_dir)] @ moves @ after \<and>
     (\<forall>c\<in>set moves.
        \<exists>f\<in>set (fst (list_dcm_files (os_path_join disk_path patient_dir) file_extension w)).
          c = Move f (os_path_join (os_path_join disk_path patient_dir) (os_path_basename f))) \<and>
     (after = [] \<or> after = [Listdir (os_path_join disk_path patient_dir)]) \<and>
     tree (snd (process_patient_directory disk_path patient_dir file_extension w)) =
       tree (snd (move_dcm_files
                    (fst (list_dcm_files (os_path_join disk_path patient_dir) file_extension w))
                    (os_path_join disk_path patient_dir) w))"
proof -
  let ?P = "os_path_join disk_path patient_dir"
  let ?cands = "fst (list_dcm_files ?P file_extension w)"
  let ?w1 = "w\<lparr>calls := calls w @ [Walk ?P]\<rparr>"
  let ?res = "process_patient_directory disk_path patient_dir file_extension w"
  show ?thesis
  proof (cases "?cands = []")
    case True
    then have "calls (snd ?res) = calls w @ [Walk ?P] @ [] @ []"
      "tree (snd ?res) = tree (snd (move_dcm_files ?cands ?P w))"
      by (simp_all add: process_patient_directory_unfold Let_def logger_info_def move_dcm_files_def)
    then show ?thesis by (intro exI[of _ "[]"]) simp
  next
    case False
    let ?w2 = "logger_info (Found_before patient_dir (length ?cands)) ?w1"
    let ?r = "move_loop ?cands ?P 0 ?w2"
    let ?l = "os_listdir ?P (snd ?r)"
    from move_loop_calls[of ?cands ?P 0 ?w2] obtain ms where
      ms: "calls (snd ?r) = calls ?w2 @ ms" "\<forall>c\<in>set ms. \<exists>f\<in>set ?cands. c = Move f (dest ?P f)"
      by blast
    have l: "snd ?l = (snd ?r)\<lparr>faults := tl (faults (snd ?r)), calls := calls (snd ?r) @ [Listdir ?P]\<rparr>"
      by (rule os_listdir_world)
    have res: "calls (snd ?res) = calls (snd ?l) \<and> tree (snd ?res) = tree (snd ?l)"
      using False
      by (simp add: process_patient_directory_unfold Let_def logger_info_def split: sum.splits)
    have c: "calls (snd ?res) = calls w @ [Walk ?P] @ ms @ [Listdir ?P]"
      using res l ms(1) by (simp add: logger_info_def)
    have "same_env ?w2 w" by (simp add: logger_info_def)
    from move_loop_cong[OF this, of ?cands ?P 0]
    have t: "tree (snd ?res) = tree (snd (move_dcm_files ?cands ?P w))"
      using res l by (simp add: move_dcm_files_def same_env_def)
    show ?thesis
      using c ms(2) t
      by (intro exI[of _ ms] exI[of _ "[Listdir ?P]"]) (simp add: dest_def)
  qed
qed

theorem candidates_fixed_before_moves_witness:
  "calls (snd (process_patient_directory [] ''P1'' ''.dcm'' (quiet example_tree))) =
     [Walk [''P1''], Move [''P1'', ''sub'', ''deep'', ''a.dcm''] [''P1'', ''a.dcm''],
      Listdir [''P1'']] \<and>
   fst (list_dcm_files (os_path_join [] ''P1'') ''.dcm'' (quiet example_tree)) =
     [[''P1'', ''b.dcm''], [''P1'', ''sub'', ''deep'', ''a.dcm'']] \<and>
   (\<exists>moves after.
     calls (snd (process_patient_directory [] ''P1'' ''.dcm'' (quiet example_tree))) =
       calls (quiet example_tree) @ [Walk (os_path_join [] ''P1'')] @ moves @ after \<and>
     (\<forall>c\<in>set moves.
        \<exists>f\<in>set (fst (list_dcm_files (os_path_join [] ''P1'') ''.dcm'' (quiet example_tree))).
          c = Move f (os_path_join (os_path_join [] ''P1'') (os_path_basename f))) \<and>
     (after = [] \<or> after = [Listdir (os_path_join [] ''P1'')]) \<and>
     tree (snd (process_patient_directory [] ''P1'' ''.dcm'' (quiet example_tree))) =
       tree (snd (move_dcm_files
                    (fst (list_dcm_files (os_path_join [] ''P1'') ''.dcm'' (quiet example_tree)))
                    (os_path_join [] ''P1'') (quiet example_tree))))"
proof -
  have 1: "calls (snd (process_patient_directory [] ''P1'' ''.dcm'' (quiet example_tree))) =
     [Walk [''P1''], Move [''P1'', ''sub'', ''deep'', ''a.dcm''] [''P1'', ''a.dcm''],
      Listdir [''P1'']]"
    by code_simp
  have 2: "fst (list_dcm_files (os_path_join [] ''P1'') ''.dcm'' (quiet example_tree)) =
     [[''P1'', ''b.dcm''], [''P1'', ''sub'', ''deep'', ''a.dcm'']]"
    by code_simp
  show ?thesis
    using 1 2 candidates_fixed_before_moves[of "[]" "''P1''" "''.dcm''" "quiet example_tree"]
    by blast
qed

text \<open>
  C9. On every tree (entry names unique in each directory), for every root path and
  extension, when the environment injects no failure: the first run of \<^verbatim>\<open>main\<close>
  completes with some total, and a second run, started from the world the first run
  left, completes with a total of 0 and leaves the tree as the first run left it.
\<close>

theorem pipeline_idempotent:
  assumes "wf_node (tree w)" and "faults w = []"
  shows "\<exists>tot. fst (main disk_path file_extension w) = Inr tot \<and>
           fst (main disk_path file_extension (snd (main disk_path file_extension w))) = Inr 0 \<and>
           tree (snd (main disk_path file_extension (snd (main disk_path file_extension w)))) =
             tree (snd (main disk_path file_extension w))"
proof -
  let ?ext = file_extension
  let ?w0 = "logger_info (Moving_from disk_path ?ext) w"
  let ?ps = "fst (list_patient_directories disk_path True ?w0)"
  let ?w1 = "snd (list_patient_directories disk_path True ?w0)"
  let ?r = "main_loop ?ps disk_path ?ext 0 ?w1"
  have w0: "tree ?w0 = tree w" "faults ?w0 = []" using assms by (simp_all add: logger_info_def)
  have w1: "tree ?w1 = tree w" "faults ?w1 = []"
    using list_patient_directories_snd[of disk_path True ?w0] w0 by simp_all
  from main_loop_settles[of ?w1 ?ps disk_path ?ext 0] w1 assms obtain tot where
    run1: "fst ?r = Inr tot" "wf_node (tree (snd ?r))" "faults (snd ?r) = []"
      "\<forall>d. d \<in> set ?ps \<longrightarrow> settled (tree (snd ?r)) (os_path_join disk_path d) ?ext"
      "\<forall>q. stat (tree (snd ?r)) q = Some Directory \<longleftrightarrow> stat (tree w) q = Some Directory"
    by auto
  let ?W = "snd (main disk_path ?ext w)"
  have W: "fst (main disk_path ?ext w) = Inr tot" "tree ?W = tree (snd ?r)" "faults ?W = []"
    using run1(1,3) by (simp_all add: main_unfold Let_def logger_info_def)
  let ?v0 = "logger_info (Moving_from disk_path ?ext) ?W"
  let ?qs = "fst (list_patient_directories disk_path True ?v0)"
  let ?v1 = "snd (list_patient_directories disk_path True ?v0)"
  let ?r2 = "main_loop ?qs disk_path ?ext 0 ?v1"
  have v0: "tree ?v0 = tree ?W" "faults ?v0 = []" using W by (simp_all add: logger_info_def)
  have v1: "tree ?v1 = tree ?W" "faults ?v1 = []"
    using list_patient_directories_snd[of disk_path True ?v0] v0 by simp_all
  have "settled (tree ?v1) (os_path_join disk_path d) ?ext" if "d \<in> set ?qs" for d
  proof -
    have "os_path_isdir (tree ?W) (os_path_join disk_path d)"
      using patient_is_dir[OF that] v0 by simp
    then have "os_path_isdir (tree ?w0) (os_path_join disk_path d)"
      using run1(5) W(2) w0 by (simp add: isdir_stat)
    then have "d \<in> set ?ps" using patient_listed[OF w0(2)] by blast
    then show ?thesis using run1(4) v1 W(2) by simp
  qed
  then have "\<forall>d\<in>set ?qs. settled (tree ?v1) (os_path_join disk_path d) ?ext" by blast
  from main_loop_settled[OF _ v1(2) this, of 0]
  have run2: "fst ?r2 = Inr 0" "tree (snd ?r2) = tree ?v1"
    using run1(2) v1 W(2) by simp_all
  have "fst (main disk_path ?ext ?W) = Inr 0 \<and> tree (snd (main disk_path ?ext ?W)) = tree ?W"
    using run2 v1
    by (simp add: main_unfold[of disk_path ?ext ?W] Let_def logger_info_def)
  then show ?thesis using W(1) by blast
qed


theorem pipeline_idempotent_witness:
  "wf_node (tree (quiet example_tree)) \<and> faults (quiet example_tree) = [] \<and>
   fst (main [] ''.dcm'' (quiet example_tree)) = Inr 1 \<and>
   fst (main [] ''.dcm'' (snd (main [] ''.dcm'' (quiet example_tree)))) = Inr 0 \<and>
   tree (snd (main [] ''.dcm'' (snd (main [] ''.dcm'' (quiet example_tree))))) =
     tree (snd (main [] ''.dcm'' (quiet example_tree)))"
proof -
  have h1: "wf_node (tree (quiet example_tree))"
    by (simp add: quiet_def example_tree_def)
  have h2: "faults (quiet example_tree) = []" by (simp add: quiet_def)
  have h3: "fst (main [] ''.dcm'' (quiet example_tree)) = Inr 1" by code_simp
  show ?thesis
    using pipeline_idempotent[OF h1 h2, of "[]" "''.dcm''"] h1 h2 h3 by blast
qed

text \<open>
  C3. The claim: no error is fatal, and in particular a failure of the listing of the
  recount is recovered, logged and degrades to an empty result, so that the run
  completes. The listing of the recount (lines 108-110) is outside every handler. In
  the run below the environment lets the listing of the root and the one move succeed
  and fails the listing of the recount with an I/O error: \<^verbatim>\<open>main\<close> ends with that
  error, after the move, having logged neither the error nor a count after moving nor
  a total, and without processing the second patient.
\<close>

theorem recount_failure_aborts_run:
  "fst (main [] ''.dcm'' ((quiet example_tree)\<lparr>faults := [None, None, Some InputOutputError]\<rparr>)) =
     Inl InputOutputError \<and>
   logged (snd (main [] ''.dcm''
       ((quiet example_tree)\<lparr>faults := [None, None, Some InputOutputError]\<rparr>))) =
     [(INFO, Moving_from [] ''.dcm''), (INFO, Found_patient_directories 2),
      (INFO, Found_before ''P1'' 2), (WARNING, Already_exists [''P1'', ''b.dcm''])] \<and>
   calls (snd (main [] ''.dcm''
       ((quiet example_tree)\<lparr>faults := [None, None, Some InputOutputError]\<rparr>))) =
     [Listdir [], Walk [''P1''],
      Move [''P1'', ''sub'', ''deep'', ''a.dcm''] [''P1'', ''a.dcm''], Listdir [''P1'']]"
  by code_simp

text \<open>
  C8. The claim: the count logged after the moves is the number of matching files
  directly inside the patient directory. The recount (lines 108-110) counts the names
  of \<^verbatim>\<open>os.listdir\<close> that end with the extension, whatever the entry is. In the run
  below the patient directory holds a subdirectory named \<^verbatim>\<open>old.dcm\<close> and one file
  \<^verbatim>\<open>sub/a.dcm\<close>: one file is moved, one matching file is then directly inside the
  patient directory (a walk finds one as well), and the logged count is 2.
\<close>

theorem recount_counts_directories:
  "fst (process_patient_directory [] ''P'' ''.dcm'' (quiet recount_tree)) = Inr 1 \<and>
   logged (snd (process_patient_directory [] ''P'' ''.dcm'' (quiet recount_tree))) =
     [(INFO, Found_before ''P'' 1), (INFO, Found_after ''P'' 2), (INFO, Were_moved ''P'' 1)] \<and>
   matching_files_in (tree (snd (process_patient_directory [] ''P'' ''.dcm'' (quiet recount_tree))))
     [''P''] ''.dcm'' = [''a.dcm''] \<and>
   fst (list_dcm_files [''P''] ''.dcm''
         (snd (process_patient_directory [] ''P'' ''.dcm'' (quiet recount_tree)))) =
     [[''P'', ''a.dcm'']]"
  by code_simp

end
